theory Spec2Isabelle
  imports Complex_Main "HOL-Library.Sublist"
begin

section \<open>Vox keys\<close>

text \<open>
  A \<open>VoxKey\<close> is the TypeScript union \<open>string | number\<close>: a segment reference or a
  silence duration in seconds. The durations are only ever source literals (0.2, 0.075,
  ...) that are stored and compared, never computed with, so they are kept as rationals.
\<close>

datatype VoxKey = Seg string | Silence rat

text \<open>\<open>typeof key === 'number'\<close> on a key that may be missing (\<open>undefined\<close>).\<close>

fun typeof_number :: "VoxKey option \<Rightarrow> bool" where
  "typeof_number None = False"
| "typeof_number (Some (Seg s)) = False"
| "typeof_number (Some (Silence d)) = True"

text \<open>JavaScript truthiness of a key: the empty string and the number 0 are falsy.\<close>

fun truthy :: "VoxKey \<Rightarrow> bool" where
  "truthy (Seg s) = (s \<noteq> [])"
| "truthy (Silence d) = (d \<noteq> 0)"

section \<open>Resolver (src/unnamed/part_001)\<close>

subsection \<open>Strings and DOM nodes\<close>

text \<open>
  Strings are lists of 8-bit characters. \<open>String.prototype.trim\<close> removes white space
  and line terminators at both ends; in this character range they are TAB, LF, VT, FF,
  CR, SPACE and NBSP.
\<close>

definition isWhiteSpace :: "char \<Rightarrow> bool" where
  "isWhiteSpace c = (of_char c \<in> {9, 10, 11, 12, 13, 32, 160 :: nat})"

definition trim :: "string \<Rightarrow> string" where
  "trim s = rev (dropWhile isWhiteSpace (rev (dropWhile isWhiteSpace s)))"

text \<open>\<open>s.startsWith(p)\<close>\<close>

definition startsWith :: "string \<Rightarrow> string \<Rightarrow> bool" where
  "startsWith s p = (take (length p) s = p)"

text \<open>\<open>s.split(sep)\<close> for a one-character separator: always at least one part.\<close>

fun split :: "char \<Rightarrow> string \<Rightarrow> string list" where
  "split sep [] = [[]]"
| "split sep (c # cs) =
     (if c = sep then [] # split sep cs
      else (case split sep cs of
              [] \<Rightarrow> [[c]]
            | p # ps \<Rightarrow> (c # p) # ps))"

text \<open>\<open>arr[i]\<close>: \<open>undefined\<close> (here \<open>None\<close>) out of range.\<close>

definition elemAt :: "'a list \<Rightarrow> nat \<Rightarrow> 'a option" where
  "elemAt xs i = (if i < length xs then Some (xs ! i) else None)"

text \<open>\<open>arr.slice(-1)[0]\<close>: the last element, \<open>undefined\<close> for an empty array.\<close>

definition slice_last :: "'a list \<Rightarrow> 'a option" where
  "slice_last xs = (case rev xs of [] \<Rightarrow> None | x # _ \<Rightarrow> Some x)"

text \<open>A string interpolated into a template literal: \<open>undefined\<close> prints as such.\<close>

definition interp :: "string option \<Rightarrow> string" where
  "interp v = (case v of None \<Rightarrow> ''undefined'' | Some s \<Rightarrow> s)"

datatype NodeType = ELEMENT_NODE | TEXT_NODE

text \<open>
  What the resolver reads of a DOM node: its kind, its text content and its
  \<open>data-*\<close> attributes (\<open>dataset\<close>; a missing attribute reads \<open>undefined\<close>).
\<close>

record Node =
  nodeType :: NodeType
  textContent :: string
  dataset :: "string \<Rightarrow> string option"

text \<open>
  The resolver's collaborators. \<open>RAG.state.getService\<close> and \<open>getTime\<close>,
  \<open>RAG.database.getStationVox\<close> and \<open>Strings.filename\<close> are called by the resolver
  but declared elsewhere. \<open>RAG.state.getStationList\<close> is in src/js/rag.js: it returns
  the list stored for the context, or draws and stores one when there is none; the
  resolver only uses the list it returns. All five are parameters here, so what is
  proved holds whatever they return. The context passed to them is the \<open>data-context\<close>
  attribute as read, so it may be \<open>undefined\<close>.
\<close>

record RAG =
  getService :: "string option \<Rightarrow> string"
  getStationList :: "string option \<Rightarrow> string list"
  getTime :: "string option \<Rightarrow> string"
  getStationVox :: "string \<Rightarrow> string"
  filename :: "string \<Rightarrow> string"

subsection \<open>Inflection look-ahead\<close>

datatype Inflection = Mid | End

fun inflectionString :: "Inflection \<Rightarrow> string" where
  "inflectionString Mid = ''mid''"
| "inflectionString End = ''end''"

text \<open>\<open>Resolver.getInflection\<close>, on the flattened node list of the resolver.\<close>

definition getInflection :: "Node list \<Rightarrow> nat \<Rightarrow> Inflection" where
  "getInflection flattened idx =
     (case elemAt flattened (idx + 1) of
        None \<Rightarrow> Mid
      | Some next \<Rightarrow>
          if startsWith (trim (textContent next)) ''.'' then End else Mid)"

subsection \<open>Service, station list and time\<close>

text \<open>
  \<open>Resolver.resolveService\<close>. \<open>resolved\<close> is the resolver's field of that name: the keys
  pushed for the nodes before this one.
\<close>

definition resolveService :: "RAG \<Rightarrow> VoxKey list \<Rightarrow> Node \<Rightarrow> VoxKey list" where
  "resolveService rag resolved element =
     (let ctx = dataset element ''context'';
          service = filename rag (getService rag ctx);
          result = (if \<not> typeof_number (slice_last resolved) then [Silence 0.15] else [])
      in result @ [Seg (''service.'' @ service @ ''.mid''), Silence 0.15])"

text \<open>
  The callback of \<open>list.forEach\<close> in \<open>Resolver.resolveStationList\<close>: it pushes onto
  \<open>parts\<close> for the code at index \<open>k\<close>.
\<close>

definition stationListStep ::
  "RAG \<Rightarrow> string option \<Rightarrow> string list \<Rightarrow> Inflection \<Rightarrow> VoxKey list \<Rightarrow> nat \<times> string
     \<Rightarrow> VoxKey list" where
  "stationListStep rag ctx list inflect parts kc =
     (let k = fst kc; code = snd kc; voxKey = getStationVox rag code in
      if int k \<noteq> int (length list) - 1
      then parts @ [Seg (''station.'' @ voxKey @ ''.mid''), Silence 0.25]
      else
        (let parts1 = (if length list > 1
                       then parts @ [Seg ''station.parts.and.mid'', Silence 0.25]
                       else parts)
         in if length list = 1 \<and> ctx = Some ''calling''
            then parts1 @ [Seg (''station.'' @ voxKey @ ''.mid'')]
                        @ [Silence 0.2, Seg ''station.parts.only.end'']
            else parts1 @ [Seg (''station.'' @ voxKey @ ''.'' @ inflectionString inflect)]))"

text \<open>\<open>Resolver.resolveStationList\<close>\<close>

definition resolveStationList :: "RAG \<Rightarrow> Node list \<Rightarrow> Node \<Rightarrow> nat \<Rightarrow> VoxKey list" where
  "resolveStationList rag flattened element idx =
     (let ctx = dataset element ''context'';
          list = getStationList rag ctx;
          inflect = getInflection flattened idx;
          parts = foldl (stationListStep rag ctx list inflect) [Silence 0.2]
                    (zip [0 ..< length list] list)
      in parts @ [Silence 0.2])"

text \<open>\<open>Resolver.resolveTime\<close>\<close>

definition resolveTime :: "RAG \<Rightarrow> Node \<Rightarrow> VoxKey list" where
  "resolveTime rag element =
     (let ctx = dataset element ''context'';
          time = split CHR '':'' (getTime rag ctx);
          parts = [Silence 0.2]
      in if elemAt time 0 = Some ''00'' \<and> elemAt time 1 = Some ''00''
         then parts @ [Seg ''number.0000.mid'', Silence 0.2]
         else
           (let parts1 = parts @ [Seg (''number.'' @ interp (elemAt time 0) @ ''.begin'')];
                parts2 = (if elemAt time 1 = Some ''00''
                          then parts1 @ [Silence 0.075, Seg ''number.hundred.mid'']
                          else parts1 @ [Silence 0.2,
                                         Seg (''number.'' @ interp (elemAt time 1) @ ''.mid'')])
            in parts2 @ [Silence 0.15]))"

subsection \<open>Example inputs\<close>

text \<open>A state whose getters answer the same for every context, and an element with a
  \<open>data-context\<close> attribute, for evaluating the resolver on concrete inputs.\<close>

definition exampleRAG :: "string \<Rightarrow> string list \<Rightarrow> RAG" where
  "exampleRAG time stations =
     \<lparr> getService = (\<lambda>ctx. ''Great Western''),
       getStationList = (\<lambda>ctx. stations),
       getTime = (\<lambda>ctx. time),
       getStationVox = (\<lambda>code. code),
       filename = (\<lambda>s. s) \<rparr>"

definition exampleElement :: "string \<Rightarrow> Node" where
  "exampleElement ctx =
     \<lparr> nodeType = ELEMENT_NODE, textContent = [],
       dataset = (\<lambda>k. if k = ''context'' then Some ctx else None) \<rparr>"

text \<open>A text node.\<close>

definition exampleText :: "string \<Rightarrow> Node" where
  "exampleText s = \<lparr> nodeType = TEXT_NODE, textContent = s, dataset = (\<lambda>k. None) \<rparr>"

text \<open>What a member of a station list other than the last one contributes.\<close>

definition stationMid :: "RAG \<Rightarrow> string \<Rightarrow> VoxKey list" where
  "stationMid rag code = [Seg (''station.'' @ getStationVox rag code @ ''.mid''), Silence 0.25]"

section \<open>VoxEngine (src/js/speech/voxEngine.ts)\<close>

subsection \<open>Requests, buffers and audio nodes\<close>

text \<open>
  The engine only reads \<open>voiceURI\<close> of a voice and only stores the settings object, which
  is kept as an opaque identity.
\<close>

record Voice =
  voiceURI :: string

datatype SpeechSettings = SpeechSettings nat

text \<open>
  The path of a request is the template string \<open>`${voiceURI}/${id}.mp3`\<close>. It is kept
  as its two interpolated parts, the voice URI and the id, so that the id of a request
  can be read back from its path.
\<close>

datatype Path = Path (pathVoice: string) (pathId: VoxKey)

text \<open>A decoded audio buffer is identified by the path whose file it was decoded from.\<close>

datatype AudioBuffer = Decoded (bufferPath: Path)

text \<open>
  Modelled from the spec: the class \<open>VoxRequest\<close> (the spec's VoxAsset), which the
  engine constructs and reads but which is declared in another file. It holds its path,
  the completion flag \<open>isDone\<close> and, on success, the decoded \<open>buffer\<close>; \<open>cancelled\<close>
  records that \<open>cancel()\<close> took effect.
\<close>

record VoxRequest =
  path :: Path
  isDone :: bool
  buffer :: "AudioBuffer option"
  cancelled :: bool

text \<open>
  Modelled from the spec: the constructor of \<open>VoxRequest\<close>, declared in another file.
  The request is constructed with a path and its fetch begins: nothing is done yet.
\<close>

definition newVoxRequest :: "Path \<Rightarrow> VoxRequest" where
  "newVoxRequest p = \<lparr> path = p, isDone = False, buffer = None, cancelled = False \<rparr>"

text \<open>
  Modelled from the spec: \<open>VoxRequest.cancel\<close>, declared in another file. Invoked before
  completion it prevents any later buffer from being delivered; invoked after completion
  it is a no-op.
\<close>

definition cancel :: "VoxRequest \<Rightarrow> VoxRequest" where
  "cancel r = (if isDone r then r else r\<lparr> cancelled := True \<rparr>)"

text \<open>
  Modelled from the spec: the completion of the fetch and decode of a \<open>VoxRequest\<close>,
  declared in another file. On success the completion flag is set and the buffer is
  there; on failure the flag is set and there is no buffer; on a cancelled or completed
  request nothing happens.
\<close>

definition complete :: "bool \<Rightarrow> VoxRequest \<Rightarrow> VoxRequest" where
  "complete ok r =
     (if cancelled r \<or> isDone r then r
      else r\<lparr> isDone := True, buffer := (if ok then Some (Decoded (path r)) else None) \<rparr>)"

text \<open>
  What the engine does to an \<open>AudioBufferSourceNode\<close>: it assigns the buffer, connects
  the node to the filter, starts it and attaches \<open>onended\<close>; \<open>stop()\<close> of the engine stops
  and disconnects it and sets \<open>onended\<close> to null. \<open>ended\<close> records that the node's ended
  event has been dispatched, which happens once.
\<close>

record BufNode =
  nodeBuffer :: AudioBuffer
  connected :: bool
  started :: bool
  stopped :: bool
  onended :: bool
  ended :: bool

subsection \<open>The engine and the objects it refers to\<close>

text \<open>
  The first seven fields are the mutable fields of the class. Requests and buffer nodes
  are objects that the engine, the network and the audio context all refer to, so they
  live in stores (\<open>requests\<close>, \<open>nodes\<close>) and the engine holds their addresses; addresses
  are given out in order of construction. \<open>timers\<close> are the timeouts that are armed;
  \<open>setTimeout\<close> returns positive ids, so \<open>clearTimeout(0)\<close> of a fresh engine clears
  nothing. The audio context, the filter and the reverb are set up once by the
  constructor and are not modelled further.
\<close>

record World =
  isSpeaking :: bool
  pumpTimer :: nat
  pendingReqs :: "nat list"
  currentIds :: "VoxKey list option"
  currentVoice :: "Voice option"
  currentSettings :: "SpeechSettings option"
  currentBufNode :: "nat option"
  timers :: "nat set"
  timerCount :: nat
  requests :: "nat \<Rightarrow> VoxRequest"
  requestCount :: nat
  nodes :: "nat \<Rightarrow> BufNode"
  nodeCount :: nat

text \<open>The state after the constructor.\<close>

definition init :: World where
  "init =
     \<lparr> isSpeaking = False, pumpTimer = 0, pendingReqs = [], currentIds = None,
       currentVoice = None, currentSettings = None, currentBufNode = None,
       timers = {}, timerCount = 0,
       requests = (\<lambda>a. newVoxRequest (Path [] (Seg []))), requestCount = 0,
       nodes = (\<lambda>n. \<lparr> nodeBuffer = Decoded (Path [] (Seg [])), connected = False,
                       started = False, stopped = False, onended = False, ended = False \<rparr>),
       nodeCount = 0 \<rparr>"

subsection \<open>stop, playNext, pump, speak\<close>

text \<open>
  \<open>VoxEngine.stop\<close>. The current buffer node was started by \<open>playNext\<close> when it was
  created, so stopping it does not throw.
\<close>

definition stop :: "World \<Rightarrow> World" where
  "stop w =
     (let w1 = w\<lparr> timers := timers w - {pumpTimer w} \<rparr>;
          w2 = w1\<lparr> isSpeaking := False \<rparr>;
          w3 = w2\<lparr> requests :=
                      foldl (\<lambda>rs a. rs(a := cancel (rs a))) (requests w2) (pendingReqs w2) \<rparr>;
          w4 = (case currentBufNode w3 of
                  None \<Rightarrow> w3
                | Some n \<Rightarrow>
                    w3\<lparr> nodes := (nodes w3)
                          (n := (nodes w3 n)\<lparr> stopped := True, connected := False,
                                               onended := False \<rparr>),
                        currentBufNode := None \<rparr>)
      in w4\<lparr> currentIds := None, currentVoice := None, currentSettings := None,
             pendingReqs := [] \<rparr>)"

text \<open>\<open>VoxEngine.playNext\<close>\<close>

function playNext :: "World \<Rightarrow> World" where
  "playNext w =
     (case pendingReqs w of
        [] \<Rightarrow> w
      | a # rest \<Rightarrow>
          if \<not> isDone (requests w a) \<or> currentBufNode w \<noteq> None then w
          else
            (case buffer (requests w a) of
               None \<Rightarrow> playNext (w\<lparr> pendingReqs := rest \<rparr>)
             | Some b \<Rightarrow>
                 w\<lparr> pendingReqs := rest,
                    nodes := (nodes w)
                      (nodeCount w := \<lparr> nodeBuffer = b, connected = True, started = True,
                                        stopped = False, onended = True, ended = False \<rparr>),
                    nodeCount := nodeCount w + 1,
                    currentBufNode := Some (nodeCount w) \<rparr>))"
  by pat_completeness auto
termination
  by (relation "measure (\<lambda>w. length (pendingReqs w))") auto

declare playNext.simps [simp del]

text \<open>The \<open>onended\<close> handler that \<open>playNext\<close> attaches to the node it starts.\<close>

definition onendedHandler :: "World \<Rightarrow> World" where
  "onendedHandler w =
     (if \<not> isSpeaking w then w else playNext (w\<lparr> currentBufNode := None \<rparr>))"

text \<open>
  The \<open>while\<close> loop of \<open>pump\<close>. \<open>pump\<close> enters it only after checking that
  \<open>currentIds\<close> and \<open>currentVoice\<close> are set. \<open>this.currentIds[0]\<close> is \<open>undefined\<close>
  on an empty array and is tested for truthiness otherwise.
\<close>

function refill :: "World \<Rightarrow> World" where
  "refill w =
     (case currentIds w of
        Some (id' # rest) \<Rightarrow>
          (case currentVoice w of
             Some v \<Rightarrow>
               if truthy id' \<and> length (pendingReqs w) < 10
               then refill (w\<lparr> currentIds := Some rest,
                               requests := (requests w)
                                 (requestCount w := newVoxRequest (Path (voiceURI v) id')),
                               requestCount := requestCount w + 1,
                               pendingReqs := pendingReqs w @ [requestCount w] \<rparr>)
               else w
           | None \<Rightarrow> w)
      | _ \<Rightarrow> w)"
  by pat_completeness auto
termination
  by (relation "measure (\<lambda>w. case currentIds w of None \<Rightarrow> 0 | Some ids \<Rightarrow> length ids)")
     auto

declare refill.simps [simp del]

text \<open>\<open>setTimeout(this.pump.bind(this), 1000)\<close>, stored in \<open>pumpTimer\<close>.\<close>

definition armPumpTimer :: "World \<Rightarrow> World" where
  "armPumpTimer w =
     w\<lparr> timerCount := timerCount w + 1,
        timers := insert (timerCount w + 1) (timers w),
        pumpTimer := timerCount w + 1 \<rparr>"

text \<open>
  \<open>VoxEngine.pump\<close>. Neither \<open>playNext\<close> nor the loop unsets \<open>currentIds\<close>, so the
  branch for an unset \<open>currentIds\<close> after the loop is never taken.
\<close>

definition pump :: "World \<Rightarrow> World" where
  "pump w =
     (if \<not> isSpeaking w \<or> currentIds w = None \<or> currentVoice w = None then w
      else
        (let w1 = playNext w;
             w2 = refill w1
         in case currentIds w2 of
              None \<Rightarrow> w2
            | Some ids \<Rightarrow>
                if length ids \<le> 0 \<and> currentBufNode w2 = None then stop w2
                else armPumpTimer w2))"

text \<open>
  \<open>VoxEngine.speak\<close>. Its parameter is declared \<open>ids: string[]\<close>; the types are erased
  when the program runs and the resolver's output is a \<open>VoxKey[]\<close>, so the ids are keys
  here, of which the strings are the \<open>Seg\<close> case.
\<close>

definition speak :: "VoxKey list \<Rightarrow> Voice \<Rightarrow> SpeechSettings \<Rightarrow> World \<Rightarrow> World" where
  "speak ids voice settings w =
     (let w1 = (if isSpeaking w then stop w else w);
          w2 = w1\<lparr> isSpeaking := True, currentIds := Some ids, currentVoice := Some voice,
                   currentSettings := Some settings \<rparr>
      in pump w2)"

subsection \<open>The event loop\<close>

text \<open>
  What can happen between two calls of the engine: an armed timer fires and runs
  \<open>pump\<close>; the fetch of a constructed request completes; a started node that has not
  ended yet ends, which runs its \<open>onended\<close> handler if one is attached.
\<close>

datatype Event = TimerFired nat | FetchDone nat bool | Ended nat

fun fire :: "Event \<Rightarrow> World \<Rightarrow> World" where
  "fire (TimerFired t) w =
     (if t \<in> timers w then pump (w\<lparr> timers := timers w - {t} \<rparr>) else w)"
| "fire (FetchDone a ok) w =
     (if a < requestCount w
      then w\<lparr> requests := (requests w)(a := complete ok (requests w a)) \<rparr>
      else w)"
| "fire (Ended n) w =
     (if n < nodeCount w \<and> started (nodes w n) \<and> \<not> ended (nodes w n)
      then (let w1 = w\<lparr> nodes := (nodes w)(n := (nodes w n)\<lparr> ended := True \<rparr>) \<rparr>
            in if onended (nodes w n) then onendedHandler w1 else w1)
      else w)"

definition fireAll :: "Event list \<Rightarrow> World \<Rightarrow> World" where
  "fireAll evs w = foldl (\<lambda>s e. fire e s) w evs"

text \<open>The calls of the public methods, interleaved with the events.\<close>

datatype Action = Env Event | CallSpeak "VoxKey list" Voice SpeechSettings | CallStop

fun step :: "Action \<Rightarrow> World \<Rightarrow> World" where
  "step (Env e) w = fire e w"
| "step (CallSpeak ids voice settings) w = speak ids voice settings w"
| "step CallStop w = stop w"

definition run :: "Action list \<Rightarrow> World \<Rightarrow> World" where
  "run acts w = foldl (\<lambda>s a. step a s) w acts"

subsection \<open>Observations\<close>

text \<open>The unconsumed keys.\<close>

definition remaining :: "World \<Rightarrow> VoxKey list" where
  "remaining w = (case currentIds w of None \<Rightarrow> [] | Some ids \<Rightarrow> ids)"

text \<open>The ids of the requests constructed since there were \<open>r0\<close> of them, in order.\<close>

definition issuedKeys :: "nat \<Rightarrow> World \<Rightarrow> VoxKey list" where
  "issuedKeys r0 w = map (\<lambda>a. pathId (path (requests w a))) [r0 ..< requestCount w]"

text \<open>The ids of the pending requests, head first.\<close>

definition pendingKeys :: "World \<Rightarrow> VoxKey list" where
  "pendingKeys w = map (\<lambda>a. pathId (path (requests w a))) (pendingReqs w)"

text \<open>
  The ids whose audio was started since there were \<open>n0\<close> buffer nodes, in the order in
  which the nodes were started.
\<close>

definition playedKeys :: "nat \<Rightarrow> World \<Rightarrow> VoxKey list" where
  "playedKeys n0 w =
     map (\<lambda>n. pathId (bufferPath (nodeBuffer (nodes w n)))) [n0 ..< nodeCount w]"

text \<open>The fields of the engine object.\<close>

definition engineFields ::
  "World \<Rightarrow> bool \<times> nat \<times> nat list \<times> VoxKey list option \<times> Voice option \<times>
     SpeechSettings option \<times> nat option" where
  "engineFields w =
     (isSpeaking w, pumpTimer w, pendingReqs w, currentIds w, currentVoice w,
      currentSettings w, currentBufNode w)"

subsection \<open>Example runs\<close>

text \<open>
  A voice, a sequence of eleven segment ids, the engine after \<open>speak\<close> of that sequence
  on a fresh engine (ten requests pending, one id left, the pump timer armed), and that
  engine after the first fetch has failed and the second has succeeded.
\<close>

definition exampleVoice :: Voice where
  "exampleVoice = \<lparr> voiceURI = ''data/vox/Roy'' \<rparr>"

definition elevenIds :: "VoxKey list" where
  "elevenIds = map (\<lambda>n. Seg (replicate (Suc n) CHR ''a'')) [0 ..< 11]"

definition speakingEleven :: World where
  "speakingEleven = speak elevenIds exampleVoice (SpeechSettings 0) init"

definition firstFailed :: World where
  "firstFailed = fireAll [FetchDone 0 False, FetchDone 1 True] speakingEleven"

text \<open>
  The engine of the eleven ids after only the first fetch has failed, and events that
  arrive after the pump has run on it: the next two fetches succeed and timers fire.
\<close>

definition failedHead :: World where
  "failedHead = fireAll [FetchDone 0 False] speakingEleven"

definition restArrives :: "Event list" where
  "restArrives = [FetchDone 1 True, FetchDone 2 True, TimerFired 2, TimerFired 1]"

text \<open>
  The same engine after the third request, then the first, have completed and three
  segments have been played to the end while the fourth was still being fetched.
\<close>

definition threePlayed :: World where
  "threePlayed =
     fireAll [FetchDone 2 True, FetchDone 0 True, TimerFired 1, Ended 0, FetchDone 1 True,
              TimerFired 2, Ended 1, Ended 2] speakingEleven"

subsection \<open>Invariants of the engine\<close>

text \<open>
  The state that \<open>stop\<close> leaves behind; a handler that can still run (attached to a node
  that has not ended); a request whose fetch can no longer deliver anything.
\<close>

definition idleCleared :: "World \<Rightarrow> bool" where
  "idleCleared w =
     (timers w = {} \<and> pendingReqs w = [] \<and> currentBufNode w = None \<and>
      currentIds w = None \<and> currentVoice w = None \<and> currentSettings w = None)"

definition liveHandler :: "World \<Rightarrow> nat \<Rightarrow> bool" where
  "liveHandler w n = (onended (nodes w n) \<and> \<not> ended (nodes w n))"

definition settled :: "VoxRequest \<Rightarrow> bool" where
  "settled r = (isDone r \<or> cancelled r)"

text \<open>
  What holds of every state the engine can be in: no timer but the pump's is armed; an
  engine that is not speaking is cleared; only the current node has a handler that can
  run; every request constructed so far is pending or can deliver nothing more.
\<close>

definition wellFormed :: "World \<Rightarrow> bool" where
  "wellFormed w =
     (timers w \<subseteq> {pumpTimer w} \<and>
      (isSpeaking w \<or> idleCleared w) \<and>
      (\<forall>n < nodeCount w. liveHandler w n \<longrightarrow> currentBufNode w = Some n) \<and>
      (\<forall>n. currentBufNode w = Some n \<longrightarrow> n < nodeCount w) \<and>
      (\<forall>a < requestCount w. a \<in> set (pendingReqs w) \<or> settled (requests w a)) \<and>
      (\<forall>a \<in> set (pendingReqs w). a < requestCount w))"

text \<open>A stopped engine that nothing can wake.\<close>

definition quiet :: "World \<Rightarrow> bool" where
  "quiet s =
     (\<not> isSpeaking s \<and> timers s = {} \<and> pendingReqs s = [] \<and>
      (\<forall>n < nodeCount s. \<not> liveHandler s n) \<and>
      (\<forall>a < requestCount s. settled (requests s a)))"

text \<open>
  The engine of the eleven ids while its first segment plays, events that arrive after
  a \<open>stop\<close> at that moment, and a \<open>speak\<close> followed at once by \<open>stop\<close>.
\<close>

definition midPlayback :: World where
  "midPlayback =
     run [CallSpeak elevenIds exampleVoice (SpeechSettings 0), Env (FetchDone 0 True),
          Env (TimerFired 1)] init"

definition afterStop :: "Event list" where
  "afterStop = [FetchDone 1 True, Ended 0, TimerFired 2, FetchDone 2 False, TimerFired 1]"

definition spokenThenStopped :: "Action list" where
  "spokenThenStopped = [CallSpeak elevenIds exampleVoice (SpeechSettings 0), CallStop]"

subsection \<open>One call of speak\<close>

text \<open>
  A buffer, when a request has one, is the decoding of the file at the request's path.
  Pending requests have been constructed and their buffers are of that kind.
\<close>

definition bufferOK :: "VoxRequest \<Rightarrow> bool" where
  "bufferOK r = (buffer r = None \<or> buffer r = Some (Decoded (path r)))"

definition pendingOK :: "World \<Rightarrow> bool" where
  "pendingOK w =
     list_all (\<lambda>a. a < requestCount w \<and> bufferOK (requests w a)) (pendingReqs w)"

text \<open>
  What holds from a call \<open>speak(ids, \<dots>)\<close> made when \<open>r0\<close> requests and \<open>n0\<close> buffer
  nodes existed, until the next call: while the engine speaks, the ids requested since
  the call followed by the unconsumed ids are \<open>ids\<close>, and afterwards the ids requested
  are a prefix of \<open>ids\<close>; the ids played since the call, followed by those of the pending
  requests and by the unconsumed ids, are a subsequence of \<open>ids\<close>.
\<close>

definition session :: "VoxKey list \<Rightarrow> nat \<Rightarrow> nat \<Rightarrow> World \<Rightarrow> bool" where
  "session ids r0 n0 w =
     (r0 \<le> requestCount w \<and> n0 \<le> nodeCount w \<and> pendingOK w \<and>
      (if isSpeaking w then issuedKeys r0 w @ remaining w = ids
       else prefix (issuedKeys r0 w) ids) \<and>
      subseq (playedKeys n0 w @ pendingKeys w @ remaining w) ids)"

text \<open>
  The segment references of a key sequence, in order: the keys for which the
  specification expects a request.
\<close>

fun nonSilenceKeys :: "VoxKey list \<Rightarrow> VoxKey list" where
  "nonSilenceKeys [] = []"
| "nonSilenceKeys (Seg s # keys) = Seg s # nonSilenceKeys keys"
| "nonSilenceKeys (Silence d # keys) = nonSilenceKeys keys"

text \<open>A key sequence that begins with a silence.\<close>

definition silenceFirst :: "VoxKey list" where
  "silenceFirst = [Silence 0.2, Seg ''station.ABW.mid'']"

section \<open>Properties of the resolver\<close>

lemma elemAt_length: "elemAt xs (length xs) = None"
  by (simp add: elemAt_def)

text \<open>
  C10. The last node of a flattened list has no successor, so its inflection is mid;
  in general the inflection is end exactly when a next flattened node exists and its
  trimmed text starts with a full stop.
\<close>

theorem getInflection_last_mid:
  "getInflection (flattened @ [node]) (length flattened) = Mid \<and>
   (getInflection fl idx = End \<longleftrightarrow>
      (\<exists>next. elemAt fl (idx + 1) = Some next \<and> startsWith (trim (textContent next)) ''.''))"
  by (auto simp: getInflection_def elemAt_def split: option.splits)

lemma stationList_members:
  "length cs < length list \<Longrightarrow>
   foldl (stationListStep rag ctx list inflect) acc (zip [0 ..< length cs] cs) =
     acc @ concat (map (stationMid rag) cs)"
proof (induction cs rule: rev_induct)
  case Nil
  then show ?case by simp
next
  case (snoc c cs)
  then have "length cs < length list" and "int (length cs) \<noteq> int (length list) - 1"
    by auto
  with snoc.IH show ?case
    by (simp add: stationListStep_def stationMid_def)
qed

lemma stationList_fold_snoc:
  "foldl (stationListStep rag ctx (cs @ [c]) inflect) acc
     (zip [0 ..< length (cs @ [c])] (cs @ [c])) =
   stationListStep rag ctx (cs @ [c]) inflect (acc @ concat (map (stationMid rag) cs))
     (length cs, c)"
  using stationList_members [of cs "cs @ [c]" rag ctx inflect acc]
  by simp

lemma inflectionString_getInflection:
  "inflectionString (getInflection flattened idx) =
     (if \<exists>next. elemAt flattened (idx + 1) = Some next \<and>
           startsWith (trim (textContent next)) ''.''
      then ''end'' else ''mid'')"
  by (auto simp: getInflection_def split: option.splits)

text \<open>
  C7. The output of \<open>resolveStationList\<close> for every station list. It always opens and
  closes with 0.2s. An empty list gives nothing in between. A single station of the
  "calling" context is \<open>station.{voxKey}.mid\<close>, 0.2s and the "only" segment; any other
  single station is spoken at the inflection of the node. With more than one station,
  every station but the last is \<open>station.{voxKey}.mid\<close> followed by 0.25s, and the last
  is preceded by the "and" connector and 0.25s and spoken at the inflection of the node.
  The inflection of the node is \<open>end\<close> when the next flattened node exists and its trimmed
  text starts with a full stop, and \<open>mid\<close> otherwise.
\<close>

theorem resolveStationList_shape:
  "(getStationList rag (dataset element ''context'') = [] \<longrightarrow>
      resolveStationList rag flattened element idx = [Silence 0.2, Silence 0.2]) \<and>
   (getStationList rag (dataset element ''context'') = [c] \<and>
    dataset element ''context'' = Some ''calling'' \<longrightarrow>
      resolveStationList rag flattened element idx =
        [Silence 0.2, Seg (''station.'' @ getStationVox rag c @ ''.mid''), Silence 0.2,
         Seg ''station.parts.only.end'', Silence 0.2]) \<and>
   (getStationList rag (dataset element ''context'') = [c] \<and>
    dataset element ''context'' \<noteq> Some ''calling'' \<longrightarrow>
      resolveStationList rag flattened element idx =
        [Silence 0.2,
         Seg (''station.'' @ getStationVox rag c @ ''.'' @
              (if \<exists>next. elemAt flattened (idx + 1) = Some next \<and>
                    startsWith (trim (textContent next)) ''.''
               then ''end'' else ''mid'')),
         Silence 0.2]) \<and>
   (getStationList rag (dataset element ''context'') = cs @ [c] \<and> cs \<noteq> [] \<longrightarrow>
      resolveStationList rag flattened element idx =
        [Silence 0.2] @
        concat (map (\<lambda>code. [Seg (''station.'' @ getStationVox rag code @ ''.mid''),
                              Silence 0.25]) cs) @
        [Seg ''station.parts.and.mid'', Silence 0.25,
         Seg (''station.'' @ getStationVox rag c @ ''.'' @
              (if \<exists>next. elemAt flattened (idx + 1) = Some next \<and>
                    startsWith (trim (textContent next)) ''.''
               then ''end'' else ''mid'')),
         Silence 0.2])"
proof (intro conjI impI)
  assume l: "getStationList rag (dataset element ''context'') = []"
  show "resolveStationList rag flattened element idx = [Silence 0.2, Silence 0.2]"
    unfolding resolveStationList_def Let_def l by simp
next
  assume a: "getStationList rag (dataset element ''context'') = [c] \<and>
          dataset element ''context'' = Some ''calling''"
  then have l: "getStationList rag (dataset element ''context'') = [c]"
    by (rule conjunct1)
  from a have k: "dataset element ''context'' = Some ''calling''"
    by (rule conjunct2)
  show "resolveStationList rag flattened element idx =
        [Silence 0.2, Seg (''station.'' @ getStationVox rag c @ ''.mid''), Silence 0.2,
         Seg ''station.parts.only.end'', Silence 0.2]"
    unfolding resolveStationList_def Let_def l
    using k by (simp add: stationListStep_def)
next
  assume a: "getStationList rag (dataset element ''context'') = [c] \<and>
          dataset element ''context'' \<noteq> Some ''calling''"
  then have l: "getStationList rag (dataset element ''context'') = [c]"
    by (rule conjunct1)
  from a have k: "dataset element ''context'' \<noteq> Some ''calling''"
    by (rule conjunct2)
  show "resolveStationList rag flattened element idx =
        [Silence 0.2,
         Seg (''station.'' @ getStationVox rag c @ ''.'' @
              (if \<exists>next. elemAt flattened (idx + 1) = Some next \<and>
                    startsWith (trim (textContent next)) ''.''
               then ''end'' else ''mid'')),
         Silence 0.2]"
    unfolding resolveStationList_def Let_def l inflectionString_getInflection [symmetric]
    using k by (simp add: stationListStep_def)
next
  assume a: "getStationList rag (dataset element ''context'') = cs @ [c] \<and> cs \<noteq> []"
  then have l: "getStationList rag (dataset element ''context'') = cs @ [c]"
    by (rule conjunct1)
  have m: "stationMid rag = (\<lambda>code. [Seg (''station.'' @ getStationVox rag code @ ''.mid''),
                              Silence 0.25])"
    by (rule ext) (simp add: stationMid_def)
  from a have "length cs > 0" by simp
  then show "resolveStationList rag flattened element idx =
        [Silence 0.2] @
        concat (map (\<lambda>code. [Seg (''station.'' @ getStationVox rag code @ ''.mid''),
                              Silence 0.25]) cs) @
        [Seg ''station.parts.and.mid'', Silence 0.25,
         Seg (''station.'' @ getStationVox rag c @ ''.'' @
              (if \<exists>next. elemAt flattened (idx + 1) = Some next \<and>
                    startsWith (trim (textContent next)) ''.''
               then ''end'' else ''mid'')),
         Silence 0.2]"
    unfolding resolveStationList_def Let_def l stationList_fold_snoc m [symmetric]
      inflectionString_getInflection [symmetric]
    by (simp add: stationListStep_def)
qed

lemma next_is_full_stop:
  "\<exists>next. elemAt [exampleElement ctx, exampleText '' . The next''] (0 + 1) = Some next \<and>
          startsWith (trim (textContent next)) ''.''"
  by (simp add: elemAt_def exampleText_def trim_def startsWith_def isWhiteSpace_def)

lemma no_next:
  "\<not> (\<exists>next. elemAt [exampleElement ctx] (0 + 1) = Some next \<and>
          startsWith (trim (textContent next)) ''.'')"
  by (simp add: elemAt_def)

theorem resolveStationList_shape_witness:
  "resolveStationList (exampleRAG ''14:00'' [''ABW'', ''BHM'', ''CLJ''])
      [exampleElement ''calling'', exampleText '' . The next''] (exampleElement ''calling'') 0 =
     [Silence 0.2, Seg ''station.ABW.mid'', Silence 0.25, Seg ''station.BHM.mid'',
      Silence 0.25, Seg ''station.parts.and.mid'', Silence 0.25, Seg ''station.CLJ.end'',
      Silence 0.2] \<and>
   resolveStationList (exampleRAG ''14:00'' [''ABW'', ''BHM'', ''CLJ''])
      [exampleElement ''calling''] (exampleElement ''calling'') 0 =
     [Silence 0.2, Seg ''station.ABW.mid'', Silence 0.25, Seg ''station.BHM.mid'',
      Silence 0.25, Seg ''station.parts.and.mid'', Silence 0.25, Seg ''station.CLJ.mid'',
      Silence 0.2] \<and>
   resolveStationList (exampleRAG ''14:00'' [''ABW''])
      [exampleElement ''calling'', exampleText '' . The next''] (exampleElement ''calling'') 0 =
     [Silence 0.2, Seg ''station.ABW.mid'', Silence 0.2, Seg ''station.parts.only.end'',
      Silence 0.2] \<and>
   resolveStationList (exampleRAG ''14:00'' [''ABW''])
      [exampleElement ''changes'', exampleText '' . The next''] (exampleElement ''changes'') 0 =
     [Silence 0.2, Seg ''station.ABW.end'', Silence 0.2] \<and>
   resolveStationList (exampleRAG ''14:00'' [''ABW''])
      [exampleElement ''changes''] (exampleElement ''changes'') 0 =
     [Silence 0.2, Seg ''station.ABW.mid'', Silence 0.2] \<and>
   resolveStationList (exampleRAG ''14:00'' [])
      [exampleElement ''changes''] (exampleElement ''changes'') 0 =
     [Silence 0.2, Silence 0.2]"
  using resolveStationList_shape [of "exampleRAG ''14:00'' [''ABW'', ''BHM'', ''CLJ'']"
          "exampleElement ''calling''"
          "[exampleElement ''calling'', exampleText '' . The next'']" 0 "''CLJ''"
          "[''ABW'', ''BHM'']"]
        resolveStationList_shape [of "exampleRAG ''14:00'' [''ABW'', ''BHM'', ''CLJ'']"
          "exampleElement ''calling''" "[exampleElement ''calling'']" 0 "''CLJ''"
          "[''ABW'', ''BHM'']"]
        resolveStationList_shape [of "exampleRAG ''14:00'' [''ABW'']"
          "exampleElement ''calling''"
          "[exampleElement ''calling'', exampleText '' . The next'']" 0 "''ABW''" "[]"]
        resolveStationList_shape [of "exampleRAG ''14:00'' [''ABW'']"
          "exampleElement ''changes''"
          "[exampleElement ''changes'', exampleText '' . The next'']" 0 "''ABW''" "[]"]
        resolveStationList_shape [of "exampleRAG ''14:00'' [''ABW'']"
          "exampleElement ''changes''" "[exampleElement ''changes'']" 0 "''ABW''" "[]"]
        resolveStationList_shape [of "exampleRAG ''14:00'' []"
          "exampleElement ''changes''" "[exampleElement ''changes'']" 0 "''ABW''" "[]"]
        next_is_full_stop [of "''calling''"] next_is_full_stop [of "''changes''"]
        no_next [of "''calling''"] no_next [of "''changes''"]
  by (simp add: exampleRAG_def exampleElement_def)

text \<open>
  C8. A time node whose time is "14:00" resolves to 0.2s, \<open>number.14.begin\<close>, 0.075s,
  \<open>number.hundred.mid\<close>, 0.15s, and one whose time is "00:00" to 0.2s,
  \<open>number.0000.mid\<close>, 0.2s.
\<close>

theorem resolveTime_examples:
  "(getTime rag (dataset element ''context'') = ''14:00'' \<longrightarrow>
      resolveTime rag element =
        [Silence 0.2, Seg ''number.14.begin'', Silence 0.075, Seg ''number.hundred.mid'',
         Silence 0.15]) \<and>
   (getTime rag (dataset element ''context'') = ''00:00'' \<longrightarrow>
      resolveTime rag element = [Silence 0.2, Seg ''number.0000.mid'', Silence 0.2])"
  by (simp add: resolveTime_def elemAt_def interp_def)

theorem resolveTime_examples_witness:
  "resolveTime (exampleRAG ''14:00'' []) (exampleElement ''departure'') =
     [Silence 0.2, Seg ''number.14.begin'', Silence 0.075, Seg ''number.hundred.mid'',
      Silence 0.15] \<and>
   resolveTime (exampleRAG ''00:00'' []) (exampleElement ''departure'') =
     [Silence 0.2, Seg ''number.0000.mid'', Silence 0.2]"
  using resolveTime_examples [of "exampleRAG ''14:00'' []" "exampleElement ''departure''"]
        resolveTime_examples [of "exampleRAG ''00:00'' []" "exampleElement ''departure''"]
  by (simp add: exampleRAG_def exampleElement_def)

lemma slice_last_simps:
  "slice_last [] = None" "slice_last (xs @ [x]) = Some x"
  by (simp_all add: slice_last_def)

text \<open>
  C9. \<open>resolveService\<close> looks at the last key resolved so far and at nothing else: with
  no key yet, or after a segment, it emits the lead-in silence; after a silence it does
  not. The service segment and a trailing 0.15s follow in every case.
\<close>

theorem resolveService_lead_in:
  "resolveService rag [] element =
     [Silence 0.15,
      Seg (''service.'' @ filename rag (getService rag (dataset element ''context'')) @ ''.mid''),
      Silence 0.15] \<and>
   resolveService rag (earlier @ [Seg s]) element =
     [Silence 0.15,
      Seg (''service.'' @ filename rag (getService rag (dataset element ''context'')) @ ''.mid''),
      Silence 0.15] \<and>
   resolveService rag (earlier @ [Silence d]) element =
     [Seg (''service.'' @ filename rag (getService rag (dataset element ''context'')) @ ''.mid''),
      Silence 0.15]"
  by (simp add: resolveService_def slice_last_simps)

section \<open>Properties of the engine\<close>

subsection \<open>What each operation leaves alone\<close>

lemma playNext_frame:
  "isSpeaking (playNext w) = isSpeaking w \<and> pumpTimer (playNext w) = pumpTimer w \<and>
   currentIds (playNext w) = currentIds w \<and> currentVoice (playNext w) = currentVoice w \<and>
   currentSettings (playNext w) = currentSettings w \<and> timers (playNext w) = timers w \<and>
   timerCount (playNext w) = timerCount w \<and> requests (playNext w) = requests w \<and>
   requestCount (playNext w) = requestCount w"
proof (induction w rule: playNext.induct)
  case (1 w)
  show ?case
    by (subst (1 2 3 4 5 6 7 8 9) playNext.simps)
       (use 1 in \<open>auto split: list.splits option.splits\<close>)
qed

lemma playNext_suffix: "suffix (pendingReqs (playNext w)) (pendingReqs w)"
proof (induction w rule: playNext.induct)
  case (1 w)
  show ?case
    by (subst playNext.simps)
       (use 1 in \<open>auto split: list.splits option.splits simp: suffix_Cons\<close>)
qed

lemma playNext_length: "length (pendingReqs (playNext w)) \<le> length (pendingReqs w)"
  using playNext_suffix [of w] by (rule suffix_length_le)

lemma refill_frame:
  "isSpeaking (refill w) = isSpeaking w \<and> pumpTimer (refill w) = pumpTimer w \<and>
   currentVoice (refill w) = currentVoice w \<and>
   currentSettings (refill w) = currentSettings w \<and> timers (refill w) = timers w \<and>
   timerCount (refill w) = timerCount w \<and> nodes (refill w) = nodes w \<and>
   nodeCount (refill w) = nodeCount w \<and> currentBufNode (refill w) = currentBufNode w"
proof (induction w rule: refill.induct)
  case (1 w)
  show ?case
    by (subst (1 2 3 4 5 6 7 8 9) refill.simps)
       (use 1 in \<open>auto split: list.splits option.splits\<close>)
qed

subsection \<open>The bound on pending requests\<close>

lemma refill_bound:
  "length (pendingReqs w) \<le> 10 \<Longrightarrow> length (pendingReqs (refill w)) \<le> 10"
proof (induction w rule: refill.induct)
  case (1 w)
  show ?case
    by (subst refill.simps)
       (use 1 in \<open>auto split: list.splits option.splits\<close>)
qed

lemma stop_pending: "pendingReqs (stop w) = []"
  by (simp add: stop_def Let_def split: option.splits)

lemma armPumpTimer_pending: "pendingReqs (armPumpTimer w) = pendingReqs w"
  by (simp add: armPumpTimer_def)

lemma pump_bound:
  "length (pendingReqs w) \<le> 10 \<Longrightarrow> length (pendingReqs (pump w)) \<le> 10"
proof -
  assume a: "length (pendingReqs w) \<le> 10"
  have "length (pendingReqs (refill (playNext w))) \<le> 10"
    using a playNext_length [of w] by (intro refill_bound) simp
  with a show ?thesis
    by (simp add: pump_def Let_def stop_pending armPumpTimer_pending split: option.splits)
qed

lemma speak_bound:
  "length (pendingReqs w) \<le> 10 \<Longrightarrow> length (pendingReqs (speak ids v st w)) \<le> 10"
  unfolding speak_def Let_def by (rule pump_bound) (simp add: stop_pending)

lemma onendedHandler_bound:
  "length (pendingReqs w) \<le> 10 \<Longrightarrow> length (pendingReqs (onendedHandler w)) \<le> 10"
  using playNext_length [of "w\<lparr>currentBufNode := None\<rparr>"]
  by (simp add: onendedHandler_def)

lemma fire_bound:
  "length (pendingReqs w) \<le> 10 \<Longrightarrow> length (pendingReqs (fire e w)) \<le> 10"
  by (cases e) (simp_all add: pump_bound onendedHandler_bound Let_def)

lemma step_bound:
  "length (pendingReqs w) \<le> 10 \<Longrightarrow> length (pendingReqs (step a w)) \<le> 10"
  by (cases a) (simp_all add: fire_bound speak_bound stop_pending)

lemma run_snoc: "run (acts @ [a]) w = step a (run acts w)"
  by (simp add: run_def)

text \<open>
  C3. Whatever calls of \<open>speak\<close> and \<open>stop\<close> and whatever events follow the construction
  of the engine, \<open>pendingReqs\<close> never holds more than 10 requests.
\<close>

theorem pendingReqs_at_most_10: "length (pendingReqs (run acts init)) \<le> 10"
proof (induction acts rule: rev_induct)
  case Nil
  show ?case by (simp add: run_def init_def)
next
  case (snoc a acts)
  then show ?case by (simp add: run_snoc step_bound)
qed

subsection \<open>Skipping failed requests\<close>

lemma playNext_skip_one:
  "currentBufNode w = None \<Longrightarrow> pendingReqs w = a # rest \<Longrightarrow> isDone (requests w a) \<Longrightarrow>
   buffer (requests w a) = None \<Longrightarrow> playNext w = playNext (w\<lparr> pendingReqs := rest \<rparr>)"
  by (subst playNext.simps) simp

lemma playNext_play_one:
  "currentBufNode w = None \<Longrightarrow> pendingReqs w = a # rest \<Longrightarrow> isDone (requests w a) \<Longrightarrow>
   buffer (requests w a) = Some b \<Longrightarrow>
   playNext w =
     w\<lparr> pendingReqs := rest,
        nodes := (nodes w)
          (nodeCount w := \<lparr> nodeBuffer = b, connected = True, started = True,
                            stopped = False, onended = True, ended = False \<rparr>),
        nodeCount := nodeCount w + 1,
        currentBufNode := Some (nodeCount w) \<rparr>"
  by (subst playNext.simps) simp

lemma playNext_skip_many:
  "currentBufNode w = None \<Longrightarrow> pendingReqs w = failed @ rest \<Longrightarrow>
   list_all (\<lambda>a. isDone (requests w a) \<and> buffer (requests w a) = None) failed \<Longrightarrow>
   playNext w = playNext (w\<lparr> pendingReqs := rest \<rparr>)"
proof (induction failed arbitrary: w)
  case Nil
  then have "w\<lparr> pendingReqs := rest \<rparr> = w" by (simp add: Nil.prems(2) [symmetric])
  then show ?case by simp
next
  case (Cons a failed)
  have "playNext w = playNext (w\<lparr> pendingReqs := failed @ rest \<rparr>)"
    using Cons.prems playNext_skip_one [of w a "failed @ rest"] by simp
  also have "\<dots> = playNext (w\<lparr> pendingReqs := failed @ rest, pendingReqs := rest \<rparr>)"
    using Cons.prems by (intro Cons.IH) simp_all
  finally show ?case by simp
qed

lemma playNext_wait:
  "pendingReqs w = [] \<or> (\<exists>b more. pendingReqs w = b # more \<and> \<not> isDone (requests w b)) \<Longrightarrow>
   playNext w = w"
  by (subst playNext.simps) (auto split: list.splits)

text \<open>
  C6, amended. With nothing playing, \<open>playNext\<close> passes over every completed request
  without a buffer at the head of the queue in the same call and creates no node for it,
  and goes on with the rest at once: if the next request is complete with a buffer, that
  one is dequeued and a node with its buffer is connected and started with \<open>onended\<close>
  attached, and nothing else changes; if the next request is not complete, or there is
  none, only the failed requests leave the queue.
\<close>

theorem playNext_skips_failed:
  "currentBufNode w = None \<Longrightarrow> pendingReqs w = failed @ rest \<Longrightarrow>
   list_all (\<lambda>a. isDone (requests w a) \<and> buffer (requests w a) = None) failed \<Longrightarrow>
   playNext w = playNext (w\<lparr> pendingReqs := rest \<rparr>) \<and>
   (\<forall>b more x. rest = b # more \<and> isDone (requests w b) \<and> buffer (requests w b) = Some x \<longrightarrow>
      playNext w =
        w\<lparr> pendingReqs := more,
           nodes := (nodes w)
             (nodeCount w := \<lparr> nodeBuffer = x, connected = True, started = True,
                               stopped = False, onended = True, ended = False \<rparr>),
           nodeCount := nodeCount w + 1,
           currentBufNode := Some (nodeCount w) \<rparr>) \<and>
   (\<forall>b more. rest = b # more \<and> \<not> isDone (requests w b) \<longrightarrow>
      playNext w = w\<lparr> pendingReqs := rest \<rparr>) \<and>
   (rest = [] \<longrightarrow> playNext w = w\<lparr> pendingReqs := [] \<rparr>)"
proof (intro conjI allI impI)
  assume a: "currentBufNode w = None" "pendingReqs w = failed @ rest"
    "list_all (\<lambda>a. isDone (requests w a) \<and> buffer (requests w a) = None) failed"
  then show skip: "playNext w = playNext (w\<lparr> pendingReqs := rest \<rparr>)"
    by (rule playNext_skip_many)
  {
    fix b more x
    assume b: "rest = b # more \<and> isDone (requests w b) \<and> buffer (requests w b) = Some x"
    have "playNext (w\<lparr> pendingReqs := rest \<rparr>) =
       w\<lparr> pendingReqs := rest, pendingReqs := more,
          nodes := (nodes (w\<lparr> pendingReqs := rest \<rparr>))
            (nodeCount (w\<lparr> pendingReqs := rest \<rparr>) :=
               \<lparr> nodeBuffer = x, connected = True, started = True,
                 stopped = False, onended = True, ended = False \<rparr>),
          nodeCount := nodeCount (w\<lparr> pendingReqs := rest \<rparr>) + 1,
          currentBufNode := Some (nodeCount (w\<lparr> pendingReqs := rest \<rparr>)) \<rparr>"
      using a(1) b playNext_play_one [of "w\<lparr> pendingReqs := rest \<rparr>" b more x]
      by simp
    then show "playNext w =
        w\<lparr> pendingReqs := more,
           nodes := (nodes w)
             (nodeCount w := \<lparr> nodeBuffer = x, connected = True, started = True,
                               stopped = False, onended = True, ended = False \<rparr>),
           nodeCount := nodeCount w + 1,
           currentBufNode := Some (nodeCount w) \<rparr>"
      unfolding skip by simp
  next
    fix b more
    assume "rest = b # more \<and> \<not> isDone (requests w b)"
    then have "playNext (w\<lparr> pendingReqs := rest \<rparr>) = w\<lparr> pendingReqs := rest \<rparr>"
      by (intro playNext_wait) simp
    then show "playNext w = w\<lparr> pendingReqs := rest \<rparr>"
      unfolding skip .
  next
    assume e: "rest = []"
    then have "playNext (w\<lparr> pendingReqs := rest \<rparr>) = w\<lparr> pendingReqs := rest \<rparr>"
      by (intro playNext_wait) simp
    then show "playNext w = w\<lparr> pendingReqs := [] \<rparr>"
      unfolding skip e .
  }
qed

theorem playNext_skips_failed_witness:
  "pendingReqs firstFailed = [0, 1, 2, 3, 4, 5, 6, 7, 8, 9] \<and>
   isDone (requests firstFailed 0) \<and> buffer (requests firstFailed 0) = None \<and>
   nodeCount firstFailed = 0 \<and>
   pendingReqs (playNext firstFailed) = [2, 3, 4, 5, 6, 7, 8, 9] \<and>
   nodeCount (playNext firstFailed) = 1 \<and>
   currentBufNode (playNext firstFailed) = Some 0 \<and>
   nodes (playNext firstFailed) 0 =
     \<lparr> nodeBuffer = Decoded (Path ''data/vox/Roy'' (Seg ''aa'')), connected = True,
       started = True, stopped = False, onended = True, ended = False \<rparr> \<and>
   pendingReqs (playNext failedHead) = [1, 2, 3, 4, 5, 6, 7, 8, 9] \<and>
   nodeCount (playNext failedHead) = 0 \<and> currentBufNode (playNext failedHead) = None"
proof -
  have h1: "currentBufNode firstFailed = None" by code_simp
  have h2: "pendingReqs firstFailed = [0] @ [1, 2, 3, 4, 5, 6, 7, 8, 9]" by code_simp
  have h3: "list_all (\<lambda>a. isDone (requests firstFailed a) \<and>
              buffer (requests firstFailed a) = None) [0]"
    by code_simp
  have h4: "isDone (requests firstFailed 1) \<and>
            buffer (requests firstFailed 1) = Some (Decoded (Path ''data/vox/Roy'' (Seg ''aa'')))"
    by code_simp
  have h5: "nodeCount firstFailed = 0" by code_simp
  have h6: "isDone (requests firstFailed 0) \<and> buffer (requests firstFailed 0) = None"
    by code_simp
  have h7: "pendingReqs firstFailed = [0, 1, 2, 3, 4, 5, 6, 7, 8, 9]" by code_simp
  have g1: "currentBufNode failedHead = None" by code_simp
  have g2: "pendingReqs failedHead = [0] @ [1, 2, 3, 4, 5, 6, 7, 8, 9]" by code_simp
  have g3: "list_all (\<lambda>a. isDone (requests failedHead a) \<and>
              buffer (requests failedHead a) = None) [0]"
    by code_simp
  have g4: "\<not> isDone (requests failedHead 1)" by code_simp
  have g5: "nodeCount failedHead = 0" by code_simp
  from playNext_skips_failed [OF h1 h2 h3] h4
  have p: "playNext firstFailed =
        firstFailed\<lparr> pendingReqs := [2, 3, 4, 5, 6, 7, 8, 9],
           nodes := (nodes firstFailed)
             (nodeCount firstFailed :=
                \<lparr> nodeBuffer = Decoded (Path ''data/vox/Roy'' (Seg ''aa'')), connected = True,
                  started = True, stopped = False, onended = True, ended = False \<rparr>),
           nodeCount := nodeCount firstFailed + 1,
           currentBufNode := Some (nodeCount firstFailed) \<rparr>"
    by blast
  from playNext_skips_failed [OF g1 g2 g3] g4
  have q: "playNext failedHead = failedHead\<lparr> pendingReqs := [1, 2, 3, 4, 5, 6, 7, 8, 9] \<rparr>"
    by blast
  show ?thesis
    unfolding p q using h5 h6 h7 g1 g5 by simp
qed

subsection \<open>When the pump stops\<close>

lemma refill_ids_None: "(currentIds (refill w) = None) = (currentIds w = None)"
proof (induction w rule: refill.induct)
  case (1 w)
  show ?case
    by (subst refill.simps)
       (use 1 in \<open>auto split: list.splits option.splits\<close>)
qed

lemma stop_fields:
  "isSpeaking (stop w) = False" "pumpTimer (stop w) = pumpTimer w"
  "timers (stop w) = timers w - {pumpTimer w}" "currentIds (stop w) = None"
  "currentVoice (stop w) = None" "currentSettings (stop w) = None"
  "currentBufNode (stop w) = None" "timerCount (stop w) = timerCount w"
  "requestCount (stop w) = requestCount w" "nodeCount (stop w) = nodeCount w"
  by (simp_all add: stop_def Let_def split: option.splits)

lemma pump_speaking:
  assumes "isSpeaking w" "currentIds w \<noteq> None" "currentVoice w \<noteq> None"
  shows "pump w =
     (if remaining (refill (playNext w)) = [] \<and> currentBufNode (refill (playNext w)) = None
      then stop (refill (playNext w)) else armPumpTimer (refill (playNext w)))"
proof -
  have "currentIds (refill (playNext w)) \<noteq> None"
    using assms(2) by (simp add: refill_ids_None playNext_frame)
  then obtain ids where "currentIds (refill (playNext w)) = Some ids" by auto
  with assms show ?thesis
    by (auto simp: pump_def Let_def remaining_def)
qed

text \<open>
  C5. A pump of a speaking engine, after \<open>playNext\<close> and the refill, calls \<open>stop\<close> exactly
  when no unconsumed key is left and no buffer node is playing; otherwise it re-arms its
  timer and the engine stays speaking. So after the pump the engine is speaking exactly
  when keys are left or something is playing. Neither the completion of a fetch nor the
  end of a node changes \<open>isSpeaking\<close>. The queue of the claim is the queue of unconsumed
  keys, \<open>currentIds\<close>; the requests still pending do not enter the decision.
\<close>

theorem pump_stops_only_when_drained:
  "isSpeaking w \<Longrightarrow> currentIds w \<noteq> None \<Longrightarrow> currentVoice w \<noteq> None \<Longrightarrow>
   (remaining (refill (playNext w)) = [] \<and> currentBufNode (refill (playNext w)) = None \<longrightarrow>
      pump w = stop (refill (playNext w)) \<and> \<not> isSpeaking (pump w) \<and>
      pumpTimer (pump w) \<notin> timers (pump w)) \<and>
   (remaining (refill (playNext w)) \<noteq> [] \<or> currentBufNode (refill (playNext w)) \<noteq> None \<longrightarrow>
      pump w = armPumpTimer (refill (playNext w)) \<and> isSpeaking (pump w) \<and>
      pumpTimer (pump w) \<in> timers (pump w)) \<and>
   (isSpeaking (pump w) \<longleftrightarrow> remaining (pump w) \<noteq> [] \<or> currentBufNode (pump w) \<noteq> None) \<and>
   isSpeaking (fire (FetchDone a ok) w) = isSpeaking w \<and>
   isSpeaking (fire (Ended n) w) = isSpeaking w"
proof -
  assume a: "isSpeaking w" "currentIds w \<noteq> None" "currentVoice w \<noteq> None"
  let ?w2 = "refill (playNext w)"
  have sp: "isSpeaking ?w2" using a(1) by (simp add: refill_frame playNext_frame)
  show ?thesis
  proof (cases "remaining ?w2 = [] \<and> currentBufNode ?w2 = None")
    case True
    then have "pump w = stop ?w2"
      unfolding pump_speaking [OF a] by (rule if_P)
    with True show ?thesis
      by (simp add: stop_fields remaining_def onendedHandler_def playNext_frame Let_def)
  next
    case False
    then have "pump w = armPumpTimer ?w2"
      unfolding pump_speaking [OF a] by (rule if_not_P)
    with False sp show ?thesis
      by (auto simp: armPumpTimer_def remaining_def onendedHandler_def playNext_frame Let_def)
  qed
qed

theorem pump_stops_only_when_drained_witness:
  "isSpeaking speakingEleven \<and> remaining (refill (playNext speakingEleven)) \<noteq> [] \<and>
   isSpeaking (pump speakingEleven) \<and>
   pumpTimer (pump speakingEleven) \<in> timers (pump speakingEleven) \<and>
   isSpeaking threePlayed \<and> remaining (refill (playNext threePlayed)) = [] \<and>
   currentBufNode (refill (playNext threePlayed)) = None \<and>
   \<not> isSpeaking (pump threePlayed) \<and>
   pumpTimer (pump threePlayed) \<notin> timers (pump threePlayed)"
proof -
  have e1: "isSpeaking speakingEleven" by code_simp
  have e2: "currentIds speakingEleven \<noteq> None" by code_simp
  have e3: "currentVoice speakingEleven \<noteq> None" by code_simp
  have e4: "remaining (refill (playNext speakingEleven)) \<noteq> []" by code_simp
  have t1: "isSpeaking threePlayed" by code_simp
  have t2: "currentIds threePlayed \<noteq> None" by code_simp
  have t3: "currentVoice threePlayed \<noteq> None" by code_simp
  have t4: "remaining (refill (playNext threePlayed)) = []" by code_simp
  have t5: "currentBufNode (refill (playNext threePlayed)) = None" by code_simp
  show ?thesis
    using pump_stops_only_when_drained [OF e1 e2 e3, of 0 True 0]
          pump_stops_only_when_drained [OF t1 t2 t3, of 0 True 0]
          e1 e4 t1 t4 t5
    by blast
qed

subsection \<open>The invariant holds in every reachable state\<close>

lemma wellFormed_init: "wellFormed init"
  by (simp add: wellFormed_def init_def idleCleared_def)

lemma wellFormedI:
  "timers w \<subseteq> {pumpTimer w} \<Longrightarrow> isSpeaking w \<or> idleCleared w \<Longrightarrow>
   (\<And>n. n < nodeCount w \<Longrightarrow> liveHandler w n \<Longrightarrow> currentBufNode w = Some n) \<Longrightarrow>
   (\<And>n. currentBufNode w = Some n \<Longrightarrow> n < nodeCount w) \<Longrightarrow>
   (\<And>a. a < requestCount w \<Longrightarrow> a \<notin> set (pendingReqs w) \<Longrightarrow> settled (requests w a)) \<Longrightarrow>
   (\<And>a. a \<in> set (pendingReqs w) \<Longrightarrow> a < requestCount w) \<Longrightarrow> wellFormed w"
  unfolding wellFormed_def by blast

lemma wellFormedD:
  assumes "wellFormed w"
  shows "timers w \<subseteq> {pumpTimer w}" and "isSpeaking w \<or> idleCleared w"
    and "n < nodeCount w \<Longrightarrow> liveHandler w n \<Longrightarrow> currentBufNode w = Some n"
    and "currentBufNode w = Some n \<Longrightarrow> n < nodeCount w"
    and "a < requestCount w \<Longrightarrow> a \<notin> set (pendingReqs w) \<Longrightarrow> settled (requests w a)"
    and "a \<in> set (pendingReqs w) \<Longrightarrow> a < requestCount w"
  using assms unfolding wellFormed_def by blast+


lemma dequeue_wellFormed:
  assumes wf: "wellFormed w" and p: "pendingReqs w = a # rest" and d: "isDone (requests w a)"
  shows "wellFormed (w\<lparr>pendingReqs := rest\<rparr>)"
proof (rule wellFormedI)
  show "timers (w\<lparr>pendingReqs := rest\<rparr>) \<subseteq> {pumpTimer (w\<lparr>pendingReqs := rest\<rparr>)}"
    using wellFormedD(1) [OF wf] by simp
  show "isSpeaking (w\<lparr>pendingReqs := rest\<rparr>) \<or> idleCleared (w\<lparr>pendingReqs := rest\<rparr>)"
    using wellFormedD(2) [OF wf] p by (simp add: idleCleared_def)
next
  fix n
  assume "n < nodeCount (w\<lparr>pendingReqs := rest\<rparr>)" "liveHandler (w\<lparr>pendingReqs := rest\<rparr>) n"
  then show "currentBufNode (w\<lparr>pendingReqs := rest\<rparr>) = Some n"
    using wellFormedD(3) [OF wf, of n] by (simp add: liveHandler_def)
next
  fix n
  assume "currentBufNode (w\<lparr>pendingReqs := rest\<rparr>) = Some n"
  then show "n < nodeCount (w\<lparr>pendingReqs := rest\<rparr>)"
    using wellFormedD(4) [OF wf, of n] by simp
next
  fix b
  assume "b < requestCount (w\<lparr>pendingReqs := rest\<rparr>)"
    and "b \<notin> set (pendingReqs (w\<lparr>pendingReqs := rest\<rparr>))"
  then have "b < requestCount w" "b \<notin> set rest" by simp_all
  then show "settled (requests (w\<lparr>pendingReqs := rest\<rparr>) b)"
    using wellFormedD(5) [OF wf, of b] p d by (cases "b = a") (simp_all add: settled_def)
next
  fix b
  assume "b \<in> set (pendingReqs (w\<lparr>pendingReqs := rest\<rparr>))"
  then show "b < requestCount (w\<lparr>pendingReqs := rest\<rparr>)"
    using wellFormedD(6) [OF wf, of b] p by simp
qed

lemma start_wellFormed:
  assumes wf: "wellFormed w" and c: "currentBufNode w = None" and sp: "isSpeaking w"
  shows "wellFormed (w\<lparr> nodes := (nodes w)
              (nodeCount w := \<lparr> nodeBuffer = b, connected = True, started = True,
                            stopped = False, onended = True, ended = False \<rparr>),
            nodeCount := nodeCount w + 1,
            currentBufNode := Some (nodeCount w) \<rparr>)"
    (is "wellFormed ?w'")
proof (rule wellFormedI)
  show "timers ?w' \<subseteq> {pumpTimer ?w'}"
    using wellFormedD(1) [OF wf] by simp
  show "isSpeaking ?w' \<or> idleCleared ?w'"
    using sp by simp
next
  fix n
  assume "n < nodeCount ?w'" and l: "liveHandler ?w' n"
  then have "n < nodeCount w \<or> n = nodeCount w" by auto
  then show "currentBufNode ?w' = Some n"
  proof
    assume "n < nodeCount w"
    moreover from this l have "liveHandler w n" by (simp add: liveHandler_def)
    ultimately have "currentBufNode w = Some n" by (rule wellFormedD(3) [OF wf])
    with c show ?thesis by simp
  next
    assume "n = nodeCount w"
    then show ?thesis by simp
  qed
next
  fix n
  assume "currentBufNode ?w' = Some n"
  then show "n < nodeCount ?w'" by simp
next
  fix a
  assume "a < requestCount ?w'" "a \<notin> set (pendingReqs ?w')"
  then show "settled (requests ?w' a)"
    using wellFormedD(5) [OF wf, of a] by simp
next
  fix a
  assume "a \<in> set (pendingReqs ?w')"
  then show "a < requestCount ?w'"
    using wellFormedD(6) [OF wf, of a] by simp
qed

lemma playNext_wellFormed: "wellFormed w \<Longrightarrow> wellFormed (playNext w)"
proof (induction w rule: playNext.induct)
  case (1 w)
  show ?case
  proof (cases "pendingReqs w")
    case Nil
    then have "playNext w = w" by (subst playNext.simps) simp
    with 1 show ?thesis by simp
  next
    case (Cons a rest)
    show ?thesis
    proof (cases "\<not> isDone (requests w a) \<or> currentBufNode w \<noteq> None")
      case True
      then have "playNext w = w" using Cons by (subst playNext.simps) auto
      with 1 show ?thesis by simp
    next
      case False
      then have d: "isDone (requests w a)" and c: "currentBufNode w = None" by auto
      have wf: "wellFormed (w\<lparr>pendingReqs := rest\<rparr>)"
        using "1.prems" Cons d by (rule dequeue_wellFormed)
      have sp: "isSpeaking w"
        using wellFormedD(2) [OF "1.prems"] Cons by (auto simp: idleCleared_def)
      show ?thesis
      proof (cases "buffer (requests w a)")
        case None
        have "playNext w = playNext (w\<lparr>pendingReqs := rest\<rparr>)"
          using c Cons d None by (rule playNext_skip_one)
        with "1.IH" [OF Cons False None wf] show ?thesis by simp
      next
        case (Some b)
        have "playNext w = w\<lparr> pendingReqs := rest,
            nodes := (nodes w)
              (nodeCount w := \<lparr> nodeBuffer = b, connected = True, started = True,
                            stopped = False, onended = True, ended = False \<rparr>),
            nodeCount := nodeCount w + 1,
            currentBufNode := Some (nodeCount w) \<rparr>"
          using c Cons d Some by (rule playNext_play_one)
        moreover have "wellFormed ((w\<lparr>pendingReqs := rest\<rparr>)\<lparr>
            nodes := (nodes (w\<lparr>pendingReqs := rest\<rparr>))
              (nodeCount (w\<lparr>pendingReqs := rest\<rparr>) :=
                 \<lparr> nodeBuffer = b, connected = True, started = True,
                   stopped = False, onended = True, ended = False \<rparr>),
            nodeCount := nodeCount (w\<lparr>pendingReqs := rest\<rparr>) + 1,
            currentBufNode := Some (nodeCount (w\<lparr>pendingReqs := rest\<rparr>)) \<rparr>)"
          using wf c sp by (intro start_wellFormed) simp_all
        ultimately show ?thesis by simp
      qed
    qed
  qed
qed

lemma refill_stay:
  "currentIds w = None \<or> currentIds w = Some [] \<or> currentVoice w = None \<or>
   \<not> truthy (hd (remaining w)) \<or> \<not> length (pendingReqs w) < 10 \<Longrightarrow> refill w = w"
  by (subst refill.simps) (auto simp: remaining_def split: option.splits list.splits)

lemma refill_go:
  "currentIds w = Some (k # rest) \<Longrightarrow> currentVoice w = Some v \<Longrightarrow> truthy k \<Longrightarrow>
   length (pendingReqs w) < 10 \<Longrightarrow>
   refill w = refill (w\<lparr> currentIds := Some rest,
                   requests := (requests w)
                     (requestCount w := newVoxRequest (Path (voiceURI v) k)),
                   requestCount := requestCount w + 1,
                   pendingReqs := pendingReqs w @ [requestCount w] \<rparr>)"
  by (subst refill.simps) simp

lemma issue_wellFormed:
  assumes wf: "wellFormed w" and sp: "isSpeaking w"
  shows "wellFormed (w\<lparr> currentIds := ids,
                   requests := (requests w) (requestCount w := r),
                   requestCount := requestCount w + 1,
                   pendingReqs := pendingReqs w @ [requestCount w] \<rparr>)"
    (is "wellFormed ?w'")
proof (rule wellFormedI)
  show "timers ?w' \<subseteq> {pumpTimer ?w'}"
    using wellFormedD(1) [OF wf] by simp
  show "isSpeaking ?w' \<or> idleCleared ?w'"
    using sp by simp
next
  fix n
  assume "n < nodeCount ?w'" "liveHandler ?w' n"
  then show "currentBufNode ?w' = Some n"
    using wellFormedD(3) [OF wf, of n] by (simp add: liveHandler_def)
next
  fix n
  assume "currentBufNode ?w' = Some n"
  then show "n < nodeCount ?w'"
    using wellFormedD(4) [OF wf, of n] by simp
next
  fix a
  assume "a < requestCount ?w'" "a \<notin> set (pendingReqs ?w')"
  then have "a < requestCount w" "a \<notin> set (pendingReqs w)" by simp_all
  then show "settled (requests ?w' a)"
    using wellFormedD(5) [OF wf, of a] by simp
next
  fix a
  assume "a \<in> set (pendingReqs ?w')"
  then have "a \<in> set (pendingReqs w) \<or> a = requestCount w" by auto
  then show "a < requestCount ?w'"
    using wellFormedD(6) [OF wf, of a] by auto
qed

lemma refill_wellFormed: "wellFormed w \<Longrightarrow> wellFormed (refill w)"
proof (induction w rule: refill.induct)
  case (1 w)
  show ?case
  proof (cases "currentIds w = None \<or> currentIds w = Some [] \<or> currentVoice w = None \<or>
     \<not> truthy (hd (remaining w)) \<or> \<not> length (pendingReqs w) < 10")
    case True
    then have "refill w = w" by (rule refill_stay)
    with 1 show ?thesis by simp
  next
    case False
    then obtain k rest v where h: "currentIds w = Some (k # rest)" "currentVoice w = Some v"
      by (cases "currentIds w"; cases "currentVoice w"; cases "remaining w")
         (auto simp: remaining_def)
    with False have g: "truthy k \<and> length (pendingReqs w) < 10"
      by (simp add: remaining_def)
    have sp: "isSpeaking w"
      using wellFormedD(2) [OF "1.prems"] h(1) by (auto simp: idleCleared_def)
    let ?w' = "w\<lparr> currentIds := Some rest,
                   requests := (requests w)
                     (requestCount w := newVoxRequest (Path (voiceURI v) k)),
                   requestCount := requestCount w + 1,
                   pendingReqs := pendingReqs w @ [requestCount w] \<rparr>"
    have r: "refill w = refill ?w'"
      using h g by (intro refill_go) simp_all
    have wf: "wellFormed ?w'"
      using "1.prems" sp by (rule issue_wellFormed)
    from "1.IH" [OF h(1) refl h(2) g wf] r show ?thesis by simp
  qed
qed

lemma cancel_all:
  "foldl (\<lambda>rs a. rs(a := cancel (rs a))) rs as a =
     (if a \<in> set as then cancel (rs a) else rs a)"
proof (induction as arbitrary: rs)
  case Nil
  show ?case by simp
next
  case (Cons b as)
  have idem: "cancel (cancel (rs b)) = cancel (rs b)" by (simp add: cancel_def)
  have "foldl (\<lambda>rs a. rs(a := cancel (rs a))) rs (b # as) a =
        foldl (\<lambda>rs a. rs(a := cancel (rs a))) (rs(b := cancel (rs b))) as a"
    by (simp only: foldl_Cons)
  also have "\<dots> = (if a \<in> set as then cancel ((rs(b := cancel (rs b))) a)
                  else (rs(b := cancel (rs b))) a)"
    by (rule Cons.IH)
  also have "\<dots> = (if a \<in> set (b # as) then cancel (rs a) else rs a)"
    using idem by (cases "a = b") simp_all
  finally show ?case .
qed


lemma settled_cancel: "settled (cancel r)"
  by (simp add: settled_def cancel_def)

lemma stop_requests:
  "requests (stop w) a = (if a \<in> set (pendingReqs w) then cancel (requests w a) else requests w a)"
  by (simp add: stop_def Let_def cancel_all split: option.splits)

lemma stop_nodes:
  "nodes (stop w) n =
     (if currentBufNode w = Some n
      then (nodes w n)\<lparr> stopped := True, connected := False, onended := False \<rparr>
      else nodes w n)"
  by (simp add: stop_def Let_def split: option.splits)

lemma wellFormed_frame:
  assumes wf: "wellFormed w"
    and t: "timers w' \<subseteq> {pumpTimer w'}" and i: "isSpeaking w' \<or> idleCleared w'"
    and n: "nodeCount w' = nodeCount w" and c: "currentBufNode w' = currentBufNode w"
    and l: "\<And>n. liveHandler w' n \<Longrightarrow> liveHandler w n"
    and r: "requestCount w' = requestCount w" and p: "pendingReqs w' = pendingReqs w"
    and s: "\<And>a. settled (requests w a) \<Longrightarrow> settled (requests w' a)"
  shows "wellFormed w'"
proof (rule wellFormedI)
  show "timers w' \<subseteq> {pumpTimer w'}" by (rule t)
  show "isSpeaking w' \<or> idleCleared w'" by (rule i)
next
  fix k
  assume "k < nodeCount w'" "liveHandler w' k"
  then have "k < nodeCount w" "liveHandler w k" by (simp_all add: n l)
  then show "currentBufNode w' = Some k"
    unfolding c by (rule wellFormedD(3) [OF wf])
next
  fix k
  assume "currentBufNode w' = Some k"
  then show "k < nodeCount w'"
    unfolding c n by (rule wellFormedD(4) [OF wf])
next
  fix a
  assume "a < requestCount w'" "a \<notin> set (pendingReqs w')"
  then have "settled (requests w a)"
    unfolding r p by (rule wellFormedD(5) [OF wf])
  then show "settled (requests w' a)" by (rule s)
next
  fix a
  assume "a \<in> set (pendingReqs w')"
  then show "a < requestCount w'"
    unfolding r p by (rule wellFormedD(6) [OF wf])
qed

lemma stop_wellFormed:
  assumes wf: "wellFormed w"
  shows "wellFormed (stop w)"
proof (rule wellFormedI)
  show "timers (stop w) \<subseteq> {pumpTimer (stop w)}"
    using wellFormedD(1) [OF wf] by (auto simp: stop_fields)
  show "isSpeaking (stop w) \<or> idleCleared (stop w)"
    using wellFormedD(1) [OF wf] by (auto simp: idleCleared_def stop_fields stop_pending)
next
  fix n
  assume "n < nodeCount (stop w)" and l: "liveHandler (stop w) n"
  then have n: "n < nodeCount w" by (simp add: stop_fields)
  from l have "currentBufNode w \<noteq> Some n \<and> liveHandler w n"
    by (auto simp: liveHandler_def stop_nodes split: if_splits)
  with wellFormedD(3) [OF wf n] show "currentBufNode (stop w) = Some n" by simp
next
  fix n
  assume "currentBufNode (stop w) = Some n"
  then show "n < nodeCount (stop w)" by (simp add: stop_fields)
next
  fix a
  assume "a < requestCount (stop w)" "a \<notin> set (pendingReqs (stop w))"
  then have a: "a < requestCount w" by (simp add: stop_fields)
  show "settled (requests (stop w) a)"
    using wellFormedD(5) [OF wf a] by (simp add: stop_requests settled_cancel)
next
  fix a
  assume "a \<in> set (pendingReqs (stop w))"
  then show "a < requestCount (stop w)" by (simp add: stop_pending)
qed

lemma armPumpTimer_wellFormed:
  assumes "wellFormed w" "isSpeaking w" "timers w = {}"
  shows "wellFormed (armPumpTimer w)"
  using assms(1)
  by (rule wellFormed_frame) (simp_all add: armPumpTimer_def assms liveHandler_def)

lemma pump_wellFormed: "wellFormed w \<Longrightarrow> timers w = {} \<Longrightarrow> wellFormed (pump w)"
proof (cases "isSpeaking w \<and> currentIds w \<noteq> None \<and> currentVoice w \<noteq> None")
  case False
  assume "wellFormed w"
  with False show ?thesis by (auto simp: pump_def)
next
  case True
  assume a: "wellFormed w" "timers w = {}"
  let ?w2 = "refill (playNext w)"
  have wf: "wellFormed ?w2" using a(1) by (intro refill_wellFormed playNext_wellFormed)
  have sp: "isSpeaking ?w2" "timers ?w2 = {}"
    using True a(2) by (simp_all add: refill_frame playNext_frame)
  from True have "pump w = stop ?w2 \<or> pump w = armPumpTimer ?w2"
    by (simp add: pump_speaking)
  then show ?thesis
    using wf sp by (auto intro: stop_wellFormed armPumpTimer_wellFormed)
qed

lemma speak_wellFormed: "wellFormed w \<Longrightarrow> wellFormed (speak ids v st w)"
proof -
  assume a: "wellFormed w"
  let ?w1 = "if isSpeaking w then stop w else w"
  have w1: "wellFormed ?w1" using a by (simp add: stop_wellFormed)
  have t: "timers ?w1 = {}"
    using wellFormedD(1,2) [OF a] by (auto simp: stop_fields idleCleared_def)
  have "wellFormed (?w1\<lparr> isSpeaking := True, currentIds := Some ids,
                         currentVoice := Some v, currentSettings := Some st \<rparr>)"
    using w1 by (rule wellFormed_frame) (simp_all add: t liveHandler_def)
  then show ?thesis
    unfolding speak_def Let_def using t by (intro pump_wellFormed) simp_all
qed

lemma settled_complete: "settled r \<Longrightarrow> complete ok r = r"
  by (auto simp: settled_def complete_def)

lemma complete_settled: "settled (complete ok r)"
  by (simp add: settled_def complete_def)

lemma onendedHandler_wellFormed:
  assumes wf: "wellFormed w" and n: "n < nodeCount w" and l: "liveHandler w n"
  shows "wellFormed (onendedHandler
           (w\<lparr> nodes := (nodes w)(n := (nodes w n)\<lparr> ended := True \<rparr>) \<rparr>))"
proof -
  let ?w1 = "w\<lparr> nodes := (nodes w)(n := (nodes w n)\<lparr> ended := True \<rparr>) \<rparr>"
  let ?w2 = "?w1\<lparr> currentBufNode := None \<rparr>"
  have c: "currentBufNode w = Some n" using n l by (rule wellFormedD(3) [OF wf])
  with wellFormedD(2) [OF wf] have sp: "isSpeaking w" by (auto simp: idleCleared_def)
  have "wellFormed ?w2"
  proof (rule wellFormedI)
    show "timers ?w2 \<subseteq> {pumpTimer ?w2}" using wellFormedD(1) [OF wf] by simp
    show "isSpeaking ?w2 \<or> idleCleared ?w2" using sp by simp
  next
    fix k
    assume "k < nodeCount ?w2" and "liveHandler ?w2 k"
    then have "k < nodeCount w" and "k \<noteq> n" and "liveHandler w k"
      by (auto simp: liveHandler_def split: if_splits)
    with wellFormedD(3) [OF wf, of k] c show "currentBufNode ?w2 = Some k" by simp
  next
    fix k
    assume "currentBufNode ?w2 = Some k"
    then show "k < nodeCount ?w2" by simp
  next
    fix a
    assume "a < requestCount ?w2" "a \<notin> set (pendingReqs ?w2)"
    then show "settled (requests ?w2 a)" using wellFormedD(5) [OF wf, of a] by simp
  next
    fix a
    assume "a \<in> set (pendingReqs ?w2)"
    then show "a < requestCount ?w2" using wellFormedD(6) [OF wf, of a] by simp
  qed
  then have "wellFormed (playNext ?w2)" by (rule playNext_wellFormed)
  with sp show ?thesis by (simp add: onendedHandler_def)
qed

lemma fire_wellFormed:
  assumes a: "wellFormed w"
  shows "wellFormed (fire e w)"
proof (cases e)
  case (TimerFired t)
  show ?thesis
  proof (cases "t \<in> timers w")
    case True
    have e: "timers w - {t} = {}"
      using wellFormedD(1) [OF a] True by auto
    have "wellFormed (w\<lparr> timers := timers w - {t} \<rparr>)"
      using a
    proof (rule wellFormed_frame)
      show "isSpeaking (w\<lparr> timers := timers w - {t} \<rparr>) \<or>
            idleCleared (w\<lparr> timers := timers w - {t} \<rparr>)"
        using wellFormedD(2) [OF a] by (auto simp: idleCleared_def)
    qed (simp_all add: e liveHandler_def)
    then have "wellFormed (pump (w\<lparr> timers := timers w - {t} \<rparr>))"
      by (rule pump_wellFormed) (simp add: e)
    with True TimerFired show ?thesis by simp
  next
    case False
    with a TimerFired show ?thesis by simp
  qed
next
  case (FetchDone r ok)
  show ?thesis
  proof (cases "r < requestCount w")
    case True
    have "wellFormed (w\<lparr> requests := (requests w)(r := complete ok (requests w r)) \<rparr>)"
      using a
    proof (rule wellFormed_frame)
      show "isSpeaking (w\<lparr> requests := (requests w)(r := complete ok (requests w r)) \<rparr>) \<or>
            idleCleared (w\<lparr> requests := (requests w)(r := complete ok (requests w r)) \<rparr>)"
        using wellFormedD(2) [OF a] by (auto simp: idleCleared_def)
      show "timers (w\<lparr> requests := (requests w)(r := complete ok (requests w r)) \<rparr>)
            \<subseteq> {pumpTimer (w\<lparr> requests := (requests w)(r := complete ok (requests w r)) \<rparr>)}"
        using wellFormedD(1) [OF a] by simp
    qed (simp_all add: liveHandler_def complete_settled)
    with True FetchDone show ?thesis by simp
  next
    case False
    with a FetchDone show ?thesis by simp
  qed
next
  case (Ended n)
  show ?thesis
  proof (cases "n < nodeCount w \<and> started (nodes w n) \<and> \<not> ended (nodes w n)")
    case False
    with a Ended show ?thesis by auto
  next
    case True
    show ?thesis
    proof (cases "onended (nodes w n)")
      case h: True
      with True have "liveHandler w n" by (simp add: liveHandler_def)
      with a True have "wellFormed (onendedHandler
          (w\<lparr> nodes := (nodes w)(n := (nodes w n)\<lparr> ended := True \<rparr>) \<rparr>))"
        by (intro onendedHandler_wellFormed) simp_all
      with True h Ended show ?thesis by (simp add: Let_def)
    next
      case h: False
      have "wellFormed (w\<lparr> nodes := (nodes w)(n := (nodes w n)\<lparr> ended := True \<rparr>) \<rparr>)"
        using a
      proof (rule wellFormed_frame)
        show "isSpeaking (w\<lparr> nodes := (nodes w)(n := (nodes w n)\<lparr> ended := True \<rparr>) \<rparr>) \<or>
            idleCleared (w\<lparr> nodes := (nodes w)(n := (nodes w n)\<lparr> ended := True \<rparr>) \<rparr>)"
          using wellFormedD(2) [OF a] by (auto simp: idleCleared_def)
        show "timers (w\<lparr> nodes := (nodes w)(n := (nodes w n)\<lparr> ended := True \<rparr>) \<rparr>)
            \<subseteq> {pumpTimer (w\<lparr> nodes := (nodes w)(n := (nodes w n)\<lparr> ended := True \<rparr>) \<rparr>)}"
          using wellFormedD(1) [OF a] by simp
        fix k
        assume "liveHandler (w\<lparr> nodes := (nodes w)(n := (nodes w n)\<lparr> ended := True \<rparr>) \<rparr>) k"
        then show "liveHandler w k"
          by (auto simp: liveHandler_def split: if_splits)
      qed simp_all
      with True h Ended show ?thesis by (simp add: Let_def)
    qed
  qed
qed

lemma step_wellFormed: "wellFormed w \<Longrightarrow> wellFormed (step a w)"
  by (cases a) (simp_all add: fire_wellFormed speak_wellFormed stop_wellFormed)

lemma run_wellFormed: "wellFormed (run acts init)"
proof (induction acts rule: rev_induct)
  case Nil
  show ?case by (simp add: run_def wellFormed_init)
next
  case (snoc a acts)
  then show ?case by (simp add: run_snoc step_wellFormed)
qed

subsection \<open>After stop\<close>

lemma stop_quiet:
  assumes wf: "wellFormed w"
  shows "quiet (stop w)"
  unfolding quiet_def
proof (intro conjI allI impI)
  show "timers (stop w) = {}"
    using wellFormedD(1) [OF wf] by (auto simp: stop_fields)
next
  fix n
  assume "n < nodeCount (stop w)"
  then have n: "n < nodeCount w" by (simp add: stop_fields)
  show "\<not> liveHandler (stop w) n"
  proof
    assume l: "liveHandler (stop w) n"
    then have "currentBufNode w \<noteq> Some n \<and> liveHandler w n"
      by (auto simp: liveHandler_def stop_nodes split: if_splits)
    with wellFormedD(3) [OF wf n] show False by simp
  qed
next
  fix a
  assume "a < requestCount (stop w)"
  then have a: "a < requestCount w" by (simp add: stop_fields)
  show "settled (requests (stop w) a)"
    using wellFormedD(5) [OF wf a] by (simp add: stop_requests settled_cancel)
qed (simp_all add: stop_fields stop_pending)

lemma fire_quiet:
  assumes q: "quiet s"
  shows "quiet (fire e s) \<and> engineFields (fire e s) = engineFields s \<and>
         timers (fire e s) = timers s \<and> timerCount (fire e s) = timerCount s \<and>
         requests (fire e s) = requests s \<and> requestCount (fire e s) = requestCount s \<and>
         nodeCount (fire e s) = nodeCount s \<and>
         (\<forall>n. (nodes (fire e s) n)\<lparr> ended := True \<rparr> = (nodes s n)\<lparr> ended := True \<rparr>)"
proof (cases e)
  case (TimerFired t)
  with q show ?thesis by (simp add: quiet_def)
next
  case (FetchDone a ok)
  show ?thesis
  proof (cases "a < requestCount s")
    case True
    with q have "settled (requests s a)" by (simp add: quiet_def)
    then have "complete ok (requests s a) = requests s a" by (rule settled_complete)
    then have "fire e s = s" using True FetchDone by simp
    with q show ?thesis by simp
  next
    case False
    then have "fire e s = s" using FetchDone by simp
    with q show ?thesis by simp
  qed
next
  case (Ended n)
  show ?thesis
  proof (cases "n < nodeCount s \<and> started (nodes s n) \<and> \<not> ended (nodes s n)")
    case False
    then have "fire e s = s" using Ended by auto
    with q show ?thesis by simp
  next
    case True
    with q have "\<not> liveHandler s n" by (simp add: quiet_def)
    with True have h: "\<not> onended (nodes s n)" by (simp add: liveHandler_def)
    have f: "fire e s = s\<lparr> nodes := (nodes s)(n := (nodes s n)\<lparr> ended := True \<rparr>) \<rparr>"
      using True h Ended by (simp add: Let_def)
    have "quiet (s\<lparr> nodes := (nodes s)(n := (nodes s n)\<lparr> ended := True \<rparr>) \<rparr>)"
      using q by (simp add: quiet_def liveHandler_def)
    then show ?thesis
      unfolding f by (simp add: engineFields_def)
  qed
qed

lemma fireAll_snoc: "fireAll (evs @ [e]) w = fire e (fireAll evs w)"
  by (simp add: fireAll_def)

lemma fireAll_quiet:
  "quiet s \<Longrightarrow>
     quiet (fireAll evs s) \<and> engineFields (fireAll evs s) = engineFields s \<and>
     timers (fireAll evs s) = timers s \<and> timerCount (fireAll evs s) = timerCount s \<and>
     requests (fireAll evs s) = requests s \<and>
     requestCount (fireAll evs s) = requestCount s \<and>
     nodeCount (fireAll evs s) = nodeCount s \<and>
     (\<forall>n. (nodes (fireAll evs s) n)\<lparr> ended := True \<rparr> = (nodes s n)\<lparr> ended := True \<rparr>)"
proof (induction evs rule: rev_induct)
  case Nil
  then show ?case by (simp add: fireAll_def)
next
  case (snoc e evs)
  from snoc.IH [OF snoc.prems] fire_quiet [of "fireAll evs s" e]
  show ?case unfolding fireAll_snoc by simp
qed

lemma stop_idle:
  assumes wf: "wellFormed w" and i: "\<not> isSpeaking w"
  shows "stop w = w"
proof -
  from wellFormedD(2) [OF wf] i have "idleCleared w" by simp
  then show ?thesis
    using i by (simp add: stop_def Let_def idleCleared_def)
qed

text \<open>
  C4. In every state the engine can reach, \<open>stop\<close> leaves no timer armed, has applied
  \<open>cancel\<close> to every pending request, has stopped and disconnected the current buffer
  node and detached its \<open>onended\<close>, and has cleared the fields of the engine. Whatever
  events follow (timer ticks, fetch completions, nodes ending), the fields of the engine,
  the timers and the requests stay as \<open>stop\<close> left them and no node is created; only
  the \<open>ended\<close> marks of nodes change. On an engine that is not speaking \<open>stop\<close> changes
  nothing.
\<close>

theorem stop_cancels_everything:
  fixes acts :: "Action list" and evs :: "Event list"
  defines "w \<equiv> run acts init"
  defines "s \<equiv> stop w"
  defines "s' \<equiv> fireAll evs s"
  shows "timers s = {} \<and>
     map (requests s) (pendingReqs w) = map (\<lambda>a. cancel (requests w a)) (pendingReqs w) \<and>
     (case currentBufNode w of
        None \<Rightarrow> True
      | Some n \<Rightarrow> stopped (nodes s n) \<and> \<not> connected (nodes s n) \<and> \<not> onended (nodes s n)) \<and>
     engineFields s = (False, pumpTimer w, [], None, None, None, None) \<and>
     engineFields s' = engineFields s \<and> timers s' = {} \<and>
     requests s' = requests s \<and> requestCount s' = requestCount s \<and>
     nodeCount s' = nodeCount s \<and>
     (\<forall>n. (nodes s' n)\<lparr> ended := True \<rparr> = (nodes s n)\<lparr> ended := True \<rparr>) \<and>
     (\<not> isSpeaking w \<longrightarrow> s = w)"
proof -
  have wf: "wellFormed w" unfolding w_def by (rule run_wellFormed)
  then have q: "quiet s" unfolding s_def by (rule stop_quiet)
  have t: "timers s = {}" using q by (simp add: quiet_def)
  have c: "map (requests s) (pendingReqs w) = map (\<lambda>a. cancel (requests w a)) (pendingReqs w)"
    unfolding s_def by (simp add: stop_requests)
  have n: "case currentBufNode w of
        None \<Rightarrow> True
      | Some n \<Rightarrow> stopped (nodes s n) \<and> \<not> connected (nodes s n) \<and> \<not> onended (nodes s n)"
    unfolding s_def by (simp add: stop_nodes split: option.splits)
  have e: "engineFields s = (False, pumpTimer w, [], None, None, None, None)"
    unfolding s_def by (simp add: engineFields_def stop_fields stop_pending)
  have i: "\<not> isSpeaking w \<longrightarrow> s = w"
    unfolding s_def using wf by (simp add: stop_idle)
  from fireAll_quiet [OF q, of evs] t c n e i show ?thesis
    unfolding s'_def by simp
qed

theorem stop_cancels_everything_witness:
  "isSpeaking midPlayback \<and> currentBufNode midPlayback = Some 0 \<and>
   timers midPlayback = {2} \<and>
   timers (stop midPlayback) = {} \<and>
   stopped (nodes (stop midPlayback) 0) \<and> \<not> connected (nodes (stop midPlayback) 0) \<and>
   \<not> onended (nodes (stop midPlayback) 0) \<and>
   engineFields (fireAll afterStop (stop midPlayback)) =
     (False, 2, [], None, None, None, None) \<and>
   nodeCount (fireAll afterStop (stop midPlayback)) = 1 \<and>
   \<not> isSpeaking (run spokenThenStopped init) \<and>
   stop (run spokenThenStopped init) = run spokenThenStopped init"
proof -
  note T = stop_cancels_everything
         [of "[CallSpeak elevenIds exampleVoice (SpeechSettings 0), Env (FetchDone 0 True),
               Env (TimerFired 1)]" afterStop, folded midPlayback_def]
  note U = stop_cancels_everything [of spokenThenStopped "[]"]
  have a: "isSpeaking midPlayback" by code_simp
  have b: "currentBufNode midPlayback = Some 0" by code_simp
  have c: "timers midPlayback = {2}" by code_simp
  have d: "pumpTimer midPlayback = 2" by code_simp
  have e: "nodeCount midPlayback = 1" by code_simp
  have f: "\<not> isSpeaking (run spokenThenStopped init)"
    by (simp add: run_def spokenThenStopped_def stop_fields)
  have t1: "timers (stop midPlayback) = {}" by (rule T [THEN conjunct1])
  have t3: "stopped (nodes (stop midPlayback) 0) \<and> \<not> connected (nodes (stop midPlayback) 0) \<and>
     \<not> onended (nodes (stop midPlayback) 0)"
    using T [THEN conjunct2, THEN conjunct2, THEN conjunct1] unfolding b by simp
  have t4: "engineFields (stop midPlayback) = (False, 2, [], None, None, None, None)"
    using T [THEN conjunct2, THEN conjunct2, THEN conjunct2, THEN conjunct1]
    unfolding d .
  have t5: "engineFields (fireAll afterStop (stop midPlayback)) =
     (False, 2, [], None, None, None, None)"
    using T [THEN conjunct2, THEN conjunct2, THEN conjunct2, THEN conjunct2, THEN conjunct1]
    unfolding t4 .
  have t9: "nodeCount (fireAll afterStop (stop midPlayback)) = nodeCount (stop midPlayback)"
    by (rule T [THEN conjunct2, THEN conjunct2, THEN conjunct2, THEN conjunct2,
          THEN conjunct2, THEN conjunct2, THEN conjunct2, THEN conjunct2, THEN conjunct1])
  have t9': "nodeCount (fireAll afterStop (stop midPlayback)) = 1"
    unfolding t9 stop_fields e ..
  have u: "stop (run spokenThenStopped init) = run spokenThenStopped init"
    using U [THEN conjunct2, THEN conjunct2, THEN conjunct2, THEN conjunct2,
          THEN conjunct2, THEN conjunct2, THEN conjunct2, THEN conjunct2, THEN conjunct2,
          THEN conjunct2] f by (rule mp)
  from a b c t1 t3 t4 t5 t9' f u show ?thesis by (intro conjI) (elim conjE, assumption)+
qed

subsection \<open>A failed request at the head when the pump runs\<close>

lemma wellFormed_idle_quiet:
  assumes wf: "wellFormed w" and i: "\<not> isSpeaking w"
  shows "quiet w"
proof -
  from wellFormedD(2) [OF wf] i have c: "idleCleared w" by simp
  then have f: "timers w = {}" "pendingReqs w = []" "currentBufNode w = None"
    by (simp_all add: idleCleared_def)
  show ?thesis
    unfolding quiet_def
  proof (intro conjI allI impI)
    fix n
    assume n: "n < nodeCount w"
    show "\<not> liveHandler w n"
    proof
      assume "liveHandler w n"
      with n have "currentBufNode w = Some n" by (rule wellFormedD(3) [OF wf])
      with f(3) show False by simp
    qed
  next
    fix a
    assume "a < requestCount w"
    moreover have "a \<notin> set (pendingReqs w)" by (simp add: f)
    ultimately show "settled (requests w a)" by (rule wellFormedD(5) [OF wf])
  qed (simp_all add: i f)
qed

text \<open>
  C6, as stated, fails. Eleven ids are spoken and the first fetch fails while the others
  are still under way. The pump runs: \<open>playNext\<close> skips the failed request, the loop
  issues the request for the last id, and since no id is left and nothing is playing
  the pump calls \<open>stop\<close>, which cancels the ten pending requests. Nothing is played, also
  when the next fetches succeed afterwards. Had the first fetch succeeded, the same pump
  would have started the first segment and the engine would still be speaking.
\<close>

theorem failed_request_stops_engine:
  "isSpeaking failedHead \<and> isDone (requests failedHead 0) \<and>
   buffer (requests failedHead 0) = None \<and>
   \<not> isSpeaking (fire (TimerFired 1) failedHead) \<and>
   pendingReqs (fire (TimerFired 1) failedHead) = [] \<and>
   cancelled (requests (fire (TimerFired 1) failedHead) 1) \<and>
   nodeCount (fire (TimerFired 1) failedHead) = 0 \<and>
   playedKeys 0 (fireAll restArrives (fire (TimerFired 1) failedHead)) = [] \<and>
   isSpeaking midPlayback \<and> currentBufNode midPlayback = Some 0"
proof -
  define w' where "w' = failedHead\<lparr> timers := timers failedHead - {1} \<rparr>"
  define x where "x = refill (playNext w')"
  have a: "isSpeaking failedHead" by code_simp
  have b: "isDone (requests failedHead 0) \<and> buffer (requests failedHead 0) = None"
    by code_simp
  have t: "1 \<in> timers failedHead" by code_simp
  have s1: "isSpeaking w'" unfolding w'_def by code_simp
  have s2: "currentIds w' \<noteq> None" unfolding w'_def by code_simp
  have s3: "currentVoice w' \<noteq> None" unfolding w'_def by code_simp
  have r: "remaining x = []" unfolding x_def w'_def by code_simp
  have c: "currentBufNode x = None" unfolding x_def w'_def by code_simp
  have n: "nodeCount x = 0" unfolding x_def w'_def by code_simp
  have p: "pendingReqs x = [1, 2, 3, 4, 5, 6, 7, 8, 9, 10]" unfolding x_def w'_def by code_simp
  have d: "\<not> isDone (requests x 1)" unfolding x_def w'_def by code_simp
  have "pump w' = (if remaining x = [] \<and> currentBufNode x = None
                    then stop x else armPumpTimer x)"
    unfolding x_def by (rule pump_speaking [OF s1 s2 s3])
  then have "pump w' = stop x" using r c by simp
  moreover have "fire (TimerFired 1) failedHead = pump w'"
    unfolding w'_def using t by simp
  ultimately have f: "fire (TimerFired 1) failedHead = stop x" by simp
  have i: "\<not> isSpeaking (stop x)" by (simp add: stop_fields)
  have e: "pendingReqs (stop x) = []" by (rule stop_pending)
  have k: "cancelled (requests (stop x) 1)"
    using d by (simp add: stop_requests p cancel_def)
  have m: "nodeCount (stop x) = 0" by (simp add: stop_fields n)
  have "wellFormed speakingEleven"
    unfolding speakingEleven_def by (rule speak_wellFormed [OF wellFormed_init])
  then have "wellFormed (fire (FetchDone 0 False) speakingEleven)"
    by (rule fire_wellFormed)
  then have "wellFormed failedHead"
    by (simp only: failedHead_def fireAll_def foldl.simps)
  then have "wellFormed (fire (TimerFired 1) failedHead)" by (rule fire_wellFormed)
  then have "quiet (stop x)" unfolding f using i by (rule wellFormed_idle_quiet)
  then have "nodeCount (fireAll restArrives (stop x)) = nodeCount (stop x)"
    using fireAll_quiet [of "stop x" restArrives] by simp
  then have l: "playedKeys 0 (fireAll restArrives (stop x)) = []"
    by (simp add: playedKeys_def m)
  have g: "isSpeaking midPlayback" by code_simp
  have h: "currentBufNode midPlayback = Some 0" by code_simp
  show ?thesis
    unfolding f using a b i e k m l g h by simp
qed

subsection \<open>Requests and playback follow the order of the keys\<close>

lemma playedKeys_start:
  "n0 \<le> nodeCount w \<Longrightarrow>
   playedKeys n0 (w\<lparr> pendingReqs := rest, nodes := (nodes w)(nodeCount w := nd),
                      nodeCount := nodeCount w + 1, currentBufNode := c \<rparr>) =
     playedKeys n0 w @ [pathId (bufferPath (nodeBuffer nd))]"
  by (simp add: playedKeys_def)

lemma issuedKeys_issue:
  "r0 \<le> requestCount w \<Longrightarrow>
   issuedKeys r0 (w\<lparr> currentIds := ids,
                   requests := (requests w) (requestCount w := newVoxRequest (Path u k)),
                   requestCount := requestCount w + 1,
                   pendingReqs := pendingReqs w @ [requestCount w] \<rparr>) =
     issuedKeys r0 w @ [k]"
  by (simp add: issuedKeys_def newVoxRequest_def)

lemma pendingKeys_issue:
  "pendingOK w \<Longrightarrow>
   pendingKeys (w\<lparr> currentIds := ids,
                   requests := (requests w) (requestCount w := newVoxRequest (Path u k)),
                   requestCount := requestCount w + 1,
                   pendingReqs := pendingReqs w @ [requestCount w] \<rparr>) =
     pendingKeys w @ [k]"
  by (auto simp: pendingKeys_def pendingOK_def newVoxRequest_def list_all_iff)

lemma pendingOK_issue:
  "pendingOK w \<Longrightarrow>
   pendingOK (w\<lparr> currentIds := ids,
                   requests := (requests w) (requestCount w := newVoxRequest (Path u k)),
                   requestCount := requestCount w + 1,
                   pendingReqs := pendingReqs w @ [requestCount w] \<rparr>)"
  by (auto simp: pendingOK_def newVoxRequest_def list_all_iff bufferOK_def)

lemma playNext_played:
  "n0 \<le> nodeCount w \<Longrightarrow> pendingOK w \<Longrightarrow>
   n0 \<le> nodeCount (playNext w) \<and> pendingOK (playNext w) \<and>
   subseq (playedKeys n0 (playNext w) @ pendingKeys (playNext w))
          (playedKeys n0 w @ pendingKeys w)"
proof (induction w rule: playNext.induct)
  case (1 w)
  show ?case
  proof (cases "pendingReqs w")
    case Nil
    then have "playNext w = w" by (subst playNext.simps) simp
    with "1.prems" show ?thesis by simp
  next
    case (Cons a rest)
    show ?thesis
    proof (cases "\<not> isDone (requests w a) \<or> currentBufNode w \<noteq> None")
      case True
      then have "playNext w = w" using Cons by (subst playNext.simps) auto
      with "1.prems" show ?thesis by simp
    next
      case False
      then have d: "isDone (requests w a)" and c: "currentBufNode w = None" by auto
      have ok: "pendingOK (w\<lparr>pendingReqs := rest\<rparr>)"
        using "1.prems"(2) Cons by (simp add: pendingOK_def)
      have pk: "pendingKeys w =
          pathId (path (requests w a)) # pendingKeys (w\<lparr>pendingReqs := rest\<rparr>)"
        using Cons by (simp add: pendingKeys_def)
      show ?thesis
      proof (cases "buffer (requests w a)")
        case None
        have e: "playNext w = playNext (w\<lparr>pendingReqs := rest\<rparr>)"
          using c Cons d None by (rule playNext_skip_one)
        have n: "n0 \<le> nodeCount (w\<lparr>pendingReqs := rest\<rparr>)"
          using "1.prems"(1) by simp
        note IH = "1.IH" [OF Cons False None n ok]
        have pl: "playedKeys n0 (w\<lparr>pendingReqs := rest\<rparr>) = playedKeys n0 w"
          by (simp add: playedKeys_def)
        have "subseq (playedKeys n0 (w\<lparr>pendingReqs := rest\<rparr>) @
                      pendingKeys (w\<lparr>pendingReqs := rest\<rparr>))
                     (playedKeys n0 w @ pendingKeys w)"
          unfolding pk pl
          by (intro list_emb_append_mono subseq_order.refl list_emb_Cons)
        with IH show ?thesis
          unfolding e by (blast intro: subseq_order.trans)
      next
        case (Some b)
        have e: "playNext w = w\<lparr> pendingReqs := rest,
            nodes := (nodes w)
              (nodeCount w := \<lparr> nodeBuffer = b, connected = True, started = True,
                            stopped = False, onended = True, ended = False \<rparr>),
            nodeCount := nodeCount w + 1,
            currentBufNode := Some (nodeCount w) \<rparr>"
          using c Cons d Some by (rule playNext_play_one)
        have "bufferOK (requests w a)"
          using "1.prems"(2) Cons by (simp add: pendingOK_def)
        with Some have b: "b = Decoded (path (requests w a))"
          by (simp add: bufferOK_def)
        have p: "playedKeys n0 (playNext w) = playedKeys n0 w @ [pathId (path (requests w a))]"
          unfolding e b using playedKeys_start [OF "1.prems"(1), where rest = rest
            and nd = "\<lparr> nodeBuffer = Decoded (path (requests w a)), connected = True,
               started = True, stopped = False, onended = True, ended = False \<rparr>"
            and c = "Some (nodeCount w)"]
          by simp
        have q: "pendingKeys (playNext w) = pendingKeys (w\<lparr>pendingReqs := rest\<rparr>)"
          unfolding e by (simp add: pendingKeys_def)
        have o: "pendingOK (playNext w)"
          unfolding e using ok by (simp add: pendingOK_def)
        have n: "n0 \<le> nodeCount (playNext w)"
          unfolding e using "1.prems"(1) by simp
        show ?thesis
          using n o unfolding p q pk by simp
      qed
    qed
  qed
qed

lemma refill_keys:
  "r0 \<le> requestCount w \<Longrightarrow> pendingOK w \<Longrightarrow>
   r0 \<le> requestCount (refill w) \<and> pendingOK (refill w) \<and>
   issuedKeys r0 (refill w) @ remaining (refill w) = issuedKeys r0 w @ remaining w \<and>
   pendingKeys (refill w) @ remaining (refill w) = pendingKeys w @ remaining w"
proof (induction w rule: refill.induct)
  case (1 w)
  show ?case
  proof (cases "currentIds w = None \<or> currentIds w = Some [] \<or> currentVoice w = None \<or>
     \<not> truthy (hd (remaining w)) \<or> \<not> length (pendingReqs w) < 10")
    case True
    then have "refill w = w" by (rule refill_stay)
    with "1.prems" show ?thesis by simp
  next
    case False
    then obtain k rest v where h: "currentIds w = Some (k # rest)" "currentVoice w = Some v"
      by (cases "currentIds w"; cases "currentVoice w"; cases "remaining w")
         (auto simp: remaining_def)
    with False have g: "truthy k \<and> length (pendingReqs w) < 10"
      by (simp add: remaining_def)
    let ?w' = "w\<lparr> currentIds := Some rest,
                   requests := (requests w)
                     (requestCount w := newVoxRequest (Path (voiceURI v) k)),
                   requestCount := requestCount w + 1,
                   pendingReqs := pendingReqs w @ [requestCount w] \<rparr>"
    have r: "refill w = refill ?w'"
      using h g by (intro refill_go) simp_all
    have c: "r0 \<le> requestCount ?w'" using "1.prems"(1) by simp
    have o: "pendingOK ?w'" using "1.prems"(2) by (rule pendingOK_issue)
    have i0: "issuedKeys r0 ?w' = issuedKeys r0 w @ [k]"
      using "1.prems"(1) by (rule issuedKeys_issue)
    have p0: "pendingKeys ?w' = pendingKeys w @ [k]"
      using "1.prems"(2) by (rule pendingKeys_issue)
    have rm: "remaining ?w' = rest" "remaining w = k # rest"
      using h(1) by (simp_all add: remaining_def)
    have i: "issuedKeys r0 ?w' @ remaining ?w' = issuedKeys r0 w @ remaining w"
      unfolding i0 rm by simp
    have p: "pendingKeys ?w' @ remaining ?w' = pendingKeys w @ remaining w"
      unfolding p0 rm by simp
    from "1.IH" [OF h(1) refl h(2) g c o] show ?thesis
      unfolding r i p .
  qed
qed

lemma sessionI:
  "r0 \<le> requestCount w \<Longrightarrow> n0 \<le> nodeCount w \<Longrightarrow> pendingOK w \<Longrightarrow>
   (isSpeaking w \<Longrightarrow> issuedKeys r0 w @ remaining w = ids) \<Longrightarrow>
   (\<not> isSpeaking w \<Longrightarrow> prefix (issuedKeys r0 w) ids) \<Longrightarrow>
   subseq (playedKeys n0 w @ pendingKeys w @ remaining w) ids \<Longrightarrow> session ids r0 n0 w"
  by (simp add: session_def)

lemma sessionD:
  assumes "session ids r0 n0 w"
  shows "r0 \<le> requestCount w" and "n0 \<le> nodeCount w" and "pendingOK w"
    and "isSpeaking w \<Longrightarrow> issuedKeys r0 w @ remaining w = ids"
    and "prefix (issuedKeys r0 w) ids"
    and "subseq (playedKeys n0 w @ pendingKeys w @ remaining w) ids"
  using assms by (auto simp: session_def split: if_splits)

lemma session_played: "session ids r0 n0 w \<Longrightarrow> subseq (playedKeys n0 w) ids"
proof -
  assume "session ids r0 n0 w"
  then have "subseq (playedKeys n0 w @ pendingKeys w @ remaining w) ids"
    by (rule sessionD(6))
  moreover have "subseq (playedKeys n0 w) (playedKeys n0 w @ pendingKeys w @ remaining w)"
    by (intro list_emb_prefix subseq_order.refl)
  ultimately show ?thesis by (blast intro: subseq_order.trans)
qed

lemma session_cong:
  assumes s: "session ids r0 n0 w"
    and sp: "isSpeaking w' = isSpeaking w" and rc: "requestCount w' = requestCount w"
    and nc: "nodeCount w' = nodeCount w" and pr: "pendingReqs w' = pendingReqs w"
    and ci: "currentIds w' = currentIds w"
    and pa: "\<And>a. path (requests w' a) = path (requests w a)"
    and bo: "\<And>a. bufferOK (requests w a) \<Longrightarrow> bufferOK (requests w' a)"
    and nb: "\<And>n. nodeBuffer (nodes w' n) = nodeBuffer (nodes w n)"
  shows "session ids r0 n0 w'"
proof -
  have i: "issuedKeys r0 w' = issuedKeys r0 w" by (simp add: issuedKeys_def rc pa)
  have p: "playedKeys n0 w' = playedKeys n0 w" by (simp add: playedKeys_def nc nb)
  have k: "pendingKeys w' = pendingKeys w" by (simp add: pendingKeys_def pr pa)
  have r: "remaining w' = remaining w" by (simp add: remaining_def ci)
  have o: "pendingOK w'"
    using sessionD(3) [OF s] bo unfolding pendingOK_def pr rc list_all_iff by blast
  show ?thesis
  proof (rule sessionI)
    show "r0 \<le> requestCount w'" unfolding rc by (rule sessionD(1) [OF s])
    show "n0 \<le> nodeCount w'" unfolding nc by (rule sessionD(2) [OF s])
    show "pendingOK w'" by (rule o)
    show "issuedKeys r0 w' @ remaining w' = ids" if "isSpeaking w'"
      unfolding i r using that sessionD(4) [OF s] by (simp add: sp)
    show "prefix (issuedKeys r0 w') ids"
      unfolding i by (rule sessionD(5) [OF s])
    show "subseq (playedKeys n0 w' @ pendingKeys w' @ remaining w') ids"
      unfolding p k r by (rule sessionD(6) [OF s])
  qed
qed

lemma session_playNext:
  assumes s: "session ids r0 n0 w"
  shows "session ids r0 n0 (playNext w)"
proof -
  note P = playNext_played [OF sessionD(2) [OF s] sessionD(3) [OF s]]
  have i: "issuedKeys r0 (playNext w) = issuedKeys r0 w"
    by (simp add: issuedKeys_def playNext_frame)
  have r: "remaining (playNext w) = remaining w"
    by (simp add: remaining_def playNext_frame)
  have "subseq ((playedKeys n0 (playNext w) @ pendingKeys (playNext w)) @ remaining w)
               ((playedKeys n0 w @ pendingKeys w) @ remaining w)"
    by (rule list_emb_append_mono [OF P [THEN conjunct2, THEN conjunct2]
          subseq_order.refl])
  then have sub: "subseq (playedKeys n0 (playNext w) @ pendingKeys (playNext w) @ remaining w)
               (playedKeys n0 w @ pendingKeys w @ remaining w)"
    by simp
  show ?thesis
  proof (rule sessionI)
    show "r0 \<le> requestCount (playNext w)"
      using sessionD(1) [OF s] by (simp add: playNext_frame)
    show "n0 \<le> nodeCount (playNext w)" using P by simp
    show "pendingOK (playNext w)" using P by simp
    show "issuedKeys r0 (playNext w) @ remaining (playNext w) = ids" if "isSpeaking (playNext w)"
      unfolding i r using that sessionD(4) [OF s] by (simp add: playNext_frame)
    show "prefix (issuedKeys r0 (playNext w)) ids"
      unfolding i by (rule sessionD(5) [OF s])
    show "subseq (playedKeys n0 (playNext w) @ pendingKeys (playNext w) @
                  remaining (playNext w)) ids"
      unfolding r using sub sessionD(6) [OF s] by (blast intro: subseq_order.trans)
  qed
qed

lemma session_refill:
  assumes s: "session ids r0 n0 w" and sp: "isSpeaking w"
  shows "session ids r0 n0 (refill w)"
proof -
  note R = refill_keys [OF sessionD(1) [OF s] sessionD(3) [OF s]]
  have p: "playedKeys n0 (refill w) = playedKeys n0 w"
    by (simp add: playedKeys_def refill_frame)
  have i: "issuedKeys r0 (refill w) @ remaining (refill w) = issuedKeys r0 w @ remaining w"
    using R by simp
  have k: "pendingKeys (refill w) @ remaining (refill w) = pendingKeys w @ remaining w"
    using R by simp
  show ?thesis
  proof (rule sessionI)
    show "r0 \<le> requestCount (refill w)" using R by simp
    show "n0 \<le> nodeCount (refill w)"
      using sessionD(2) [OF s] by (simp add: refill_frame)
    show "pendingOK (refill w)" using R by simp
    show "issuedKeys r0 (refill w) @ remaining (refill w) = ids" if "isSpeaking (refill w)"
      unfolding i using that sessionD(4) [OF s] by (simp add: refill_frame)
    show "prefix (issuedKeys r0 (refill w)) ids" if "\<not> isSpeaking (refill w)"
      using that sp by (simp add: refill_frame)
    show "subseq (playedKeys n0 (refill w) @ pendingKeys (refill w) @ remaining (refill w)) ids"
      unfolding p k by (rule sessionD(6) [OF s])
  qed
qed


lemma path_cancel: "path (cancel r) = path r"
  by (simp add: cancel_def)

lemma stop_issued: "issuedKeys r0 (stop w) = issuedKeys r0 w"
  by (simp add: issuedKeys_def stop_fields stop_requests path_cancel)

lemma stop_played: "playedKeys n0 (stop w) = playedKeys n0 w"
  by (simp add: playedKeys_def stop_fields stop_nodes)

lemma session_stop:
  assumes s: "session ids r0 n0 w"
  shows "session ids r0 n0 (stop w)"
proof (rule sessionI)
  show "r0 \<le> requestCount (stop w)"
    using sessionD(1) [OF s] by (simp add: stop_fields)
  show "n0 \<le> nodeCount (stop w)"
    using sessionD(2) [OF s] by (simp add: stop_fields)
  show "pendingOK (stop w)" by (simp add: pendingOK_def stop_pending)
  show "issuedKeys r0 (stop w) @ remaining (stop w) = ids" if "isSpeaking (stop w)"
    using that by (simp add: stop_fields)
  show "prefix (issuedKeys r0 (stop w)) ids"
    unfolding stop_issued by (rule sessionD(5) [OF s])
  show "subseq (playedKeys n0 (stop w) @ pendingKeys (stop w) @ remaining (stop w)) ids"
    using session_played [OF s]
    by (simp add: stop_played pendingKeys_def stop_pending remaining_def stop_fields)
qed

lemma session_arm:
  assumes s: "session ids r0 n0 w"
  shows "session ids r0 n0 (armPumpTimer w)"
  using s by (rule session_cong) (simp_all add: armPumpTimer_def)

lemma session_pump:
  assumes s: "session ids r0 n0 w"
  shows "session ids r0 n0 (pump w)"
proof (cases "isSpeaking w \<and> currentIds w \<noteq> None \<and> currentVoice w \<noteq> None")
  case False
  then have "pump w = w" by (auto simp: pump_def)
  with s show ?thesis by simp
next
  case True
  let ?w2 = "refill (playNext w)"
  have "session ids r0 n0 (playNext w)" using s by (rule session_playNext)
  moreover have "isSpeaking (playNext w)" using True by (simp add: playNext_frame)
  ultimately have w2: "session ids r0 n0 ?w2" by (rule session_refill)
  from True have "pump w = stop ?w2 \<or> pump w = armPumpTimer ?w2"
    by (simp add: pump_speaking)
  then show ?thesis
    using session_stop [OF w2] session_arm [OF w2] by auto
qed

lemma bufferOK_complete: "bufferOK r \<Longrightarrow> bufferOK (complete ok r)"
  by (simp add: bufferOK_def complete_def)

lemma path_complete: "path (complete ok r) = path r"
  by (simp add: complete_def)

lemma session_fire:
  assumes s: "session ids r0 n0 w"
  shows "session ids r0 n0 (fire e w)"
proof (cases e)
  case (TimerFired t)
  have "session ids r0 n0 (w\<lparr> timers := timers w - {t} \<rparr>)"
    using s by (rule session_cong) simp_all
  then have "session ids r0 n0 (pump (w\<lparr> timers := timers w - {t} \<rparr>))"
    by (rule session_pump)
  with s TimerFired show ?thesis by simp
next
  case (FetchDone a ok)
  have "session ids r0 n0 (w\<lparr> requests := (requests w)(a := complete ok (requests w a)) \<rparr>)"
    using s
  proof (rule session_cong)
    fix b
    assume "bufferOK (requests w b)"
    then show "bufferOK (requests
        (w\<lparr> requests := (requests w)(a := complete ok (requests w a)) \<rparr>) b)"
      by (cases "b = a") (simp_all add: bufferOK_complete)
  qed (simp_all add: path_complete)
  with s FetchDone show ?thesis by simp
next
  case (Ended n)
  let ?w1 = "w\<lparr> nodes := (nodes w)(n := (nodes w n)\<lparr> ended := True \<rparr>) \<rparr>"
  have w1: "session ids r0 n0 ?w1"
    using s by (rule session_cong) simp_all
  have "session ids r0 n0 (?w1\<lparr> currentBufNode := None \<rparr>)"
    using s by (rule session_cong) simp_all
  then have "session ids r0 n0 (playNext (?w1\<lparr> currentBufNode := None \<rparr>))"
    by (rule session_playNext)
  with w1 have "session ids r0 n0 (onendedHandler ?w1)"
    by (simp add: onendedHandler_def)
  with s w1 Ended show ?thesis by (simp add: Let_def)
qed

lemma session_fireAll: "session ids r0 n0 w \<Longrightarrow> session ids r0 n0 (fireAll evs w)"
proof (induction evs rule: rev_induct)
  case Nil
  then show ?case by (simp add: fireAll_def)
next
  case (snoc e evs)
  then show ?case by (simp add: fireAll_snoc session_fire)
qed

lemma speak_prepared:
  assumes wf: "wellFormed w"
  shows "pendingReqs (if isSpeaking w then stop w else w) = []"
    and "requestCount (if isSpeaking w then stop w else w) = requestCount w"
    and "nodeCount (if isSpeaking w then stop w else w) = nodeCount w"
  using wellFormedD(2) [OF wf] by (auto simp: stop_fields stop_pending idleCleared_def)

lemma session_speak:
  assumes wf: "wellFormed w"
  shows "session ids (requestCount w) (nodeCount w) (speak ids v st w)"
proof -
  let ?w1 = "if isSpeaking w then stop w else w"
  let ?w2 = "?w1\<lparr> isSpeaking := True, currentIds := Some ids, currentVoice := Some v,
                   currentSettings := Some st \<rparr>"
  note P = speak_prepared [OF wf]
  have "session ids (requestCount w) (nodeCount w) ?w2"
  proof (rule sessionI)
    show "requestCount w \<le> requestCount ?w2" by (simp add: P)
    show "nodeCount w \<le> nodeCount ?w2" by (simp add: P)
    show "pendingOK ?w2" by (simp add: pendingOK_def P)
    show "issuedKeys (requestCount w) ?w2 @ remaining ?w2 = ids"
      by (simp add: issuedKeys_def remaining_def P)
    show "prefix (issuedKeys (requestCount w) ?w2) ids"
      by (simp add: issuedKeys_def P)
    show "subseq (playedKeys (nodeCount w) ?w2 @ pendingKeys ?w2 @ remaining ?w2) ids"
      by (simp add: playedKeys_def pendingKeys_def remaining_def P)
  qed
  then show ?thesis
    unfolding speak_def Let_def by (rule session_pump)
qed

lemma refill_issued:
  "r0 \<le> requestCount w \<Longrightarrow> currentVoice w \<noteq> None \<Longrightarrow>
   issuedKeys r0 (refill w) =
     issuedKeys r0 w @ take (10 - length (pendingReqs w)) (takeWhile truthy (remaining w))"
proof (induction w rule: refill.induct)
  case (1 w)
  show ?case
  proof (cases "currentIds w = None \<or> currentIds w = Some [] \<or> currentVoice w = None \<or>
     \<not> truthy (hd (remaining w)) \<or> \<not> length (pendingReqs w) < 10")
    case True
    then have r: "refill w = w" by (rule refill_stay)
    from True "1.prems"(2)
    have "take (10 - length (pendingReqs w)) (takeWhile truthy (remaining w)) = []"
      by (cases "remaining w") (auto simp: remaining_def)
    then show ?thesis unfolding r by simp
  next
    case False
    then obtain k rest v where h: "currentIds w = Some (k # rest)" "currentVoice w = Some v"
      by (cases "currentIds w"; cases "currentVoice w"; cases "remaining w")
         (auto simp: remaining_def)
    with False have g: "truthy k \<and> length (pendingReqs w) < 10"
      by (simp add: remaining_def)
    let ?w' = "w\<lparr> currentIds := Some rest,
                   requests := (requests w)
                     (requestCount w := newVoxRequest (Path (voiceURI v) k)),
                   requestCount := requestCount w + 1,
                   pendingReqs := pendingReqs w @ [requestCount w] \<rparr>"
    have r: "refill w = refill ?w'"
      using h g by (intro refill_go) simp_all
    have c: "r0 \<le> requestCount ?w'" using "1.prems"(1) by simp
    have v: "currentVoice ?w' \<noteq> None" using h(2) by simp
    have i0: "issuedKeys r0 ?w' = issuedKeys r0 w @ [k]"
      using "1.prems"(1) by (rule issuedKeys_issue)
    have rm: "remaining ?w' = rest" "remaining w = k # rest"
      using h(1) by (simp_all add: remaining_def)
    have l: "length (pendingReqs ?w') = Suc (length (pendingReqs w))" by simp
    have e: "10 - length (pendingReqs w) = Suc (10 - Suc (length (pendingReqs w)))"
      using g by arith
    have t: "take (10 - length (pendingReqs w)) (takeWhile truthy (k # rest)) =
             k # take (10 - Suc (length (pendingReqs w))) (takeWhile truthy rest)"
      by (subst e) (simp add: g)
    from "1.IH" [OF h(1) refl h(2) g c v] show ?thesis
      unfolding r i0 rm l t by simp
  qed
qed

lemma arm_issued: "issuedKeys r0 (armPumpTimer w) = issuedKeys r0 w"
  by (simp add: issuedKeys_def armPumpTimer_def)

lemma speak_first_pump:
  assumes wf: "wellFormed w"
  shows "issuedKeys (requestCount w) (speak ids v st w) = take 10 (takeWhile truthy ids)"
proof -
  define w2 where "w2 = (if isSpeaking w then stop w else w)
     \<lparr> isSpeaking := True, currentIds := Some ids, currentVoice := Some v,
       currentSettings := Some st \<rparr>"
  note P = speak_prepared [OF wf]
  have f: "isSpeaking w2" "currentIds w2 = Some ids" "currentVoice w2 = Some v"
    "pendingReqs w2 = []" "requestCount w2 = requestCount w"
    by (simp_all add: w2_def P)
  have pn: "playNext w2 = w2"
    by (subst playNext.simps) (simp add: f)
  have "issuedKeys (requestCount w) (refill w2) =
        issuedKeys (requestCount w) w2 @
        take (10 - length (pendingReqs w2)) (takeWhile truthy (remaining w2))"
    by (rule refill_issued) (simp_all add: f)
  then have i: "issuedKeys (requestCount w) (refill w2) = take 10 (takeWhile truthy ids)"
    by (simp add: issuedKeys_def remaining_def f)
  have "pump w2 =
     (if remaining (refill (playNext w2)) = [] \<and> currentBufNode (refill (playNext w2)) = None
      then stop (refill (playNext w2)) else armPumpTimer (refill (playNext w2)))"
    by (rule pump_speaking) (simp_all add: f)
  then have "issuedKeys (requestCount w) (pump w2) =
             issuedKeys (requestCount w) (refill w2)"
    unfolding pn by (simp add: stop_issued arm_issued)
  then show ?thesis
    unfolding speak_def Let_def w2_def [symmetric] i .
qed

text \<open>
  C1, as stated, fails: \<open>speak\<close> of a sequence that begins with the silence 0.2 issues a
  request for that key too, so the requests are not those of the non-silence keys.
\<close>

theorem silence_key_is_requested:
  "issuedKeys 0 (speak silenceFirst exampleVoice (SpeechSettings 0) init) =
     [Silence 0.2, Seg ''station.ABW.mid''] \<and>
   issuedKeys 0 (speak silenceFirst exampleVoice (SpeechSettings 0) init) \<noteq>
     nonSilenceKeys silenceFirst"
proof -
  have "issuedKeys (requestCount init) (speak silenceFirst exampleVoice (SpeechSettings 0) init) =
        take 10 (takeWhile truthy silenceFirst)"
    using wellFormed_init by (rule speak_first_pump)
  moreover have "requestCount init = 0" by (simp add: init_def)
  ultimately show ?thesis by (simp add: silenceFirst_def)
qed

text \<open>
  C1, amended. After \<open>speak(ids, \<dots>)\<close> in any reachable state and any events, the ids of
  the requests issued since the call are a prefix of \<open>ids\<close>, one request per key in the
  original order, whatever the key is; while the engine is speaking, these ids followed
  by the unconsumed keys are \<open>ids\<close>; and when every key is truthy the call itself issues
  the requests for the first ten keys.
\<close>

theorem requests_follow_key_order:
  fixes acts :: "Action list" and evs :: "Event list"
    and ids :: "VoxKey list" and v :: Voice and st :: SpeechSettings
  defines "w \<equiv> run acts init"
  defines "s \<equiv> fireAll evs (speak ids v st w)"
  shows "prefix (issuedKeys (requestCount w) s) ids \<and>
     (isSpeaking s \<longrightarrow> issuedKeys (requestCount w) s @ remaining s = ids) \<and>
     (list_all truthy ids \<longrightarrow>
        issuedKeys (requestCount w) (speak ids v st w) = take 10 ids)"
proof -
  have wf: "wellFormed w" unfolding w_def by (rule run_wellFormed)
  then have "session ids (requestCount w) (nodeCount w) (speak ids v st w)"
    by (rule session_speak)
  then have s: "session ids (requestCount w) (nodeCount w) s"
    unfolding s_def by (rule session_fireAll)
  have "issuedKeys (requestCount w) (speak ids v st w) = take 10 ids"
    if "list_all truthy ids"
  proof -
    from that have "takeWhile truthy ids = ids" by (simp add: list_all_iff)
    with speak_first_pump [OF wf, of ids v st] show ?thesis by simp
  qed
  with sessionD(4,5) [OF s] show ?thesis by blast
qed

theorem requests_follow_key_order_witness:
  "prefix (issuedKeys 0 threePlayed) elevenIds \<and>
   isSpeaking threePlayed \<and>
   issuedKeys 0 threePlayed @ remaining threePlayed = elevenIds \<and>
   list_all truthy elevenIds \<and> issuedKeys 0 speakingEleven = take 10 elevenIds"
proof -
  have r: "run [] init = init" by (simp add: run_def)
  have c: "requestCount init = 0" by (simp add: init_def)
  note T = requests_follow_key_order [of "[]"
      "[FetchDone 2 True, FetchDone 0 True, TimerFired 1, Ended 0, FetchDone 1 True,
        TimerFired 2, Ended 1, Ended 2]" elevenIds exampleVoice "SpeechSettings 0",
      unfolded r c, folded speakingEleven_def, folded threePlayed_def]
  have a: "isSpeaking threePlayed" by code_simp
  have b: "list_all truthy elevenIds" by code_simp
  from T a b show ?thesis by blast
qed

text \<open>
  C2. After \<open>speak(ids, \<dots>)\<close> in any reachable state, and whatever the order in which
  fetches complete, timers fire and nodes end, the ids played since the call, followed by
  the ids of the pending requests and by the unconsumed keys, form a subsequence of
  \<open>ids\<close>; in particular the ids played are in the order of \<open>ids\<close>. \<open>playNext\<close> only removes
  requests from the head of the queue: what it leaves is a suffix.
\<close>

theorem playback_follows_key_order:
  fixes acts :: "Action list" and evs :: "Event list"
    and ids :: "VoxKey list" and v :: Voice and st :: SpeechSettings
  defines "w \<equiv> run acts init"
  defines "s \<equiv> fireAll evs (speak ids v st w)"
  shows "subseq (playedKeys (nodeCount w) s @ pendingKeys s @ remaining s) ids \<and>
     subseq (playedKeys (nodeCount w) s) ids \<and>
     suffix (pendingReqs (playNext x)) (pendingReqs x)"
proof -
  have wf: "wellFormed w" unfolding w_def by (rule run_wellFormed)
  then have "session ids (requestCount w) (nodeCount w) (speak ids v st w)"
    by (rule session_speak)
  then have s: "session ids (requestCount w) (nodeCount w) s"
    unfolding s_def by (rule session_fireAll)
  show ?thesis
    using sessionD(6) [OF s] session_played [OF s] playNext_suffix [of x] by simp
qed

theorem playback_follows_key_order_witness:
  "playedKeys 0 threePlayed = [Seg ''a'', Seg ''aa'', Seg ''aaa''] \<and>
   subseq (playedKeys 0 threePlayed) elevenIds"
proof -
  have r: "run [] init = init" by (simp add: run_def)
  have c: "nodeCount init = 0" by (simp add: init_def)
  note T = playback_follows_key_order [of "[]"
      "[FetchDone 2 True, FetchDone 0 True, TimerFired 1, Ended 0, FetchDone 1 True,
        TimerFired 2, Ended 1, Ended 2]" elevenIds exampleVoice "SpeechSettings 0",
      unfolded r c, folded speakingEleven_def, folded threePlayed_def]
  have a: "playedKeys 0 threePlayed = [Seg ''a'', Seg ''aa'', Seg ''aaa'']" by code_simp
  from T [THEN conjunct2, THEN conjunct1] a show ?thesis by simp
qed

end
